theory Spec2Isabelle
  imports Main
begin

section \<open>Data model\<close>

text \<open>
  The Python objects of \<^verbatim>\<open>Assignment_8_start.py\<close> live in a store. A node object is an
  index into a list of node records (the heap); a reference that may be \<^verbatim>\<open>None\<close> is an
  \<open>option\<close>. Nodes are appended when they are created and are never removed, as Python keeps
  an object alive while a Position refers to it. The element of a node is a reference too:
  for a map it is the index of a \<^verbatim>\<open>MapBase._Item\<close> object in a second list, the item
  store, which holds the key and the value of each item; two nodes that hold the same
  index share one item. The tree object carries its identity, its class (the two map
  classes; \<^verbatim>\<open>LinkedBinaryTree\<close> is their base) and the fields \<^verbatim>\<open>_root\<close> and
  \<^verbatim>\<open>_size\<close>. A Position carries its class: \<^verbatim>\<open>TreeMap.Position\<close>, which the maps make,
  or \<^verbatim>\<open>LinkedBinaryTree.Position\<close>, which a plain \<^verbatim>\<open>LinkedBinaryTree\<close> makes.
\<close>

datatype error = TypeError | ValueError | KeyError | AttributeError | UnboundLocalError

datatype cls = TreeMap | AVLTreeMap

record node =
  node_element :: nat
  node_parent :: "nat option"
  node_left :: "nat option"
  node_right :: "nat option"
  node_balance_factor :: int

type_synonym heap = "node list"

type_synonym ('k, 'v) items = "('k \<times> 'v) list"

record tree =
  tree_ident :: nat
  tree_cls :: cls
  tree_root :: "nat option"
  tree_size :: int

datatype position_class = LinkedBinaryTree_Position | TreeMap_Position

record position =
  pos_class :: position_class
  pos_container :: nat
  pos_node :: nat

text \<open>A method that mutates returns its result or its exception, and the state it leaves.\<close>

type_synonym 'a outcome = "(error + 'a) \<times> tree \<times> heap"

type_synonym ('a, 'k, 'v) map_outcome = "(error + 'a) \<times> tree \<times> heap \<times> ('k, 'v) items"

section \<open>LinkedBinaryTree\<close>

text \<open>\<^verbatim>\<open>Position.__eq__\<close>: same type and the same node object; \<^verbatim>\<open>None == None\<close> holds.\<close>

definition pos_eq :: "position option \<Rightarrow> position option \<Rightarrow> bool" where
  "pos_eq p q = (case p of
       None \<Rightarrow> q = None
     | Some a \<Rightarrow>
         (case q of
            None \<Rightarrow> False
          | Some b \<Rightarrow> pos_class b = pos_class a \<and> pos_node b = pos_node a))"

text \<open>
  \<^verbatim>\<open>_validate\<close>. The trees of the model are maps, whose \<^verbatim>\<open>self.Position\<close> is
  \<^verbatim>\<open>TreeMap.Position\<close>: the test \<^verbatim>\<open>isinstance(p, self.Position)\<close> fails for \<^verbatim>\<open>None\<close> and
  for a \<^verbatim>\<open>LinkedBinaryTree.Position\<close>.
\<close>

definition validate :: "tree \<Rightarrow> heap \<Rightarrow> position option \<Rightarrow> error + nat" where
  "validate t h p = (case p of
       None \<Rightarrow> Inl TypeError
     | Some q \<Rightarrow>
         if pos_class q \<noteq> TreeMap_Position then Inl TypeError
         else if pos_container q \<noteq> tree_ident t then Inl ValueError
         else if node_parent (h ! pos_node q) = Some (pos_node q) then Inl ValueError
         else Inr (pos_node q))"

definition make_position :: "tree \<Rightarrow> nat option \<Rightarrow> position option" where
  "make_position t n = (case n of
       None \<Rightarrow> None
     | Some a \<Rightarrow> Some \<lparr>pos_class = TreeMap_Position, pos_container = tree_ident t, pos_node = a\<rparr>)"

definition root :: "tree \<Rightarrow> position option" where
  "root t = make_position t (tree_root t)"

definition parent :: "tree \<Rightarrow> heap \<Rightarrow> position option \<Rightarrow> error + position option" where
  "parent t h p = (case validate t h p of
       Inl e \<Rightarrow> Inl e
     | Inr a \<Rightarrow> Inr (make_position t (node_parent (h ! a))))"

definition left :: "tree \<Rightarrow> heap \<Rightarrow> position option \<Rightarrow> error + position option" where
  "left t h p = (case validate t h p of
       Inl e \<Rightarrow> Inl e
     | Inr a \<Rightarrow> Inr (make_position t (node_left (h ! a))))"

definition right :: "tree \<Rightarrow> heap \<Rightarrow> position option \<Rightarrow> error + position option" where
  "right t h p = (case validate t h p of
       Inl e \<Rightarrow> Inl e
     | Inr a \<Rightarrow> Inr (make_position t (node_right (h ! a))))"

definition sibling :: "tree \<Rightarrow> heap \<Rightarrow> position option \<Rightarrow> error + position option" where
  "sibling t h p = (case parent t h p of
       Inl e \<Rightarrow> Inl e
     | Inr None \<Rightarrow> Inr None
     | Inr (Some par) \<Rightarrow>
         (case left t h (Some par) of
            Inl e \<Rightarrow> Inl e
          | Inr l \<Rightarrow> if pos_eq p l then right t h (Some par) else Inr l))"

text \<open>The generator \<^verbatim>\<open>children\<close>, run to its end.\<close>

definition children :: "tree \<Rightarrow> heap \<Rightarrow> position option \<Rightarrow> error + position list" where
  "children t h p = (case left t h p of
       Inl e \<Rightarrow> Inl e
     | Inr l \<Rightarrow>
         (case right t h p of
            Inl e \<Rightarrow> Inl e
          | Inr r \<Rightarrow> Inr ((case l of None \<Rightarrow> [] | Some c \<Rightarrow> [c]) @
                         (case r of None \<Rightarrow> [] | Some c \<Rightarrow> [c]))))"

definition num_children :: "tree \<Rightarrow> heap \<Rightarrow> position option \<Rightarrow> error + nat" where
  "num_children t h p = (case validate t h p of
       Inl e \<Rightarrow> Inl e
     | Inr a \<Rightarrow> Inr ((if node_left (h ! a) \<noteq> None then 1 else 0) +
                     (if node_right (h ! a) \<noteq> None then 1 else 0)))"

definition is_root :: "tree \<Rightarrow> position option \<Rightarrow> bool" where
  "is_root t p = pos_eq (root t) p"

definition is_leaf :: "tree \<Rightarrow> heap \<Rightarrow> position option \<Rightarrow> error + bool" where
  "is_leaf t h p = (case num_children t h p of Inl e \<Rightarrow> Inl e | Inr n \<Rightarrow> Inr (n = 0))"

definition is_empty :: "tree \<Rightarrow> bool" where
  "is_empty t = (tree_size t = 0)"

text \<open>
  \<^verbatim>\<open>_height2\<close>: 0 at a leaf, else one more than the greatest height of a child. The
  recursion follows the links of the heap, so a result is \<open>Some\<close> and no result is \<open>None\<close>.
\<close>

partial_function (option) height2 ::
  "tree \<Rightarrow> heap \<Rightarrow> position option \<Rightarrow> (error + nat) option" where
  "height2 t h p = (case is_leaf t h p of
       Inl e \<Rightarrow> Some (Inl e)
     | Inr leaf \<Rightarrow>
         if leaf then Some (Inr 0)
         else (case left t h p of
            Inl e \<Rightarrow> Some (Inl e)
          | Inr l \<Rightarrow>
              Option.bind (case l of None \<Rightarrow> Some (Inr []) | Some c \<Rightarrow>
                   Option.bind (height2 t h l)
                     (\<lambda>r. Some (case r of Inl e \<Rightarrow> Inl e | Inr n \<Rightarrow> Inr [n])))
                (\<lambda>rl. case rl of
                     Inl e \<Rightarrow> Some (Inl e)
                   | Inr ls \<Rightarrow>
                       (case right t h p of
                          Inl e \<Rightarrow> Some (Inl e)
                        | Inr r \<Rightarrow>
                            Option.bind (case r of None \<Rightarrow> Some (Inr []) | Some c \<Rightarrow>
                                 Option.bind (height2 t h r)
                                   (\<lambda>r. Some (case r of Inl e \<Rightarrow> Inl e | Inr n \<Rightarrow> Inr [n])))
                              (\<lambda>rr. Some (case rr of
                                   Inl e \<Rightarrow> Inl e
                                 | Inr rs \<Rightarrow> Inr (1 + Max (set (ls @ rs)))))))))"

declare height2.simps [code]

definition height :: "tree \<Rightarrow> heap \<Rightarrow> position option \<Rightarrow> (error + nat) option" where
  "height t h p = height2 t h (if p = None then root t else p)"

text \<open>The generator \<^verbatim>\<open>_subtree_inorder\<close>, run to its end, and \<^verbatim>\<open>inorder\<close>.\<close>

partial_function (option) subtree_inorder ::
  "tree \<Rightarrow> heap \<Rightarrow> position option \<Rightarrow> (error + position list) option" where
  "subtree_inorder t h p = (case left t h p of
       Inl e \<Rightarrow> Some (Inl e)
     | Inr l \<Rightarrow>
         Option.bind (case l of None \<Rightarrow> Some (Inr []) | Some c \<Rightarrow> subtree_inorder t h l)
           (\<lambda>rl. case rl of
                Inl e \<Rightarrow> Some (Inl e)
              | Inr ls \<Rightarrow>
                  (case right t h p of
                     Inl e \<Rightarrow> Some (Inl e)
                   | Inr r \<Rightarrow>
                       Option.bind
                         (case r of None \<Rightarrow> Some (Inr []) | Some c \<Rightarrow> subtree_inorder t h r)
                         (\<lambda>rr. Some (case rr of
                              Inl e \<Rightarrow> Inl e
                            | Inr rs \<Rightarrow> Inr (ls @ the p # rs))))))"

declare subtree_inorder.simps [code]

definition inorder :: "tree \<Rightarrow> heap \<Rightarrow> (error + position list) option" where
  "inorder t h = (if \<not> is_empty t then subtree_inorder t h (root t) else Some (Inr []))"

subsection \<open>Nonpublic mutators\<close>

definition new_node :: "nat \<Rightarrow> nat option \<Rightarrow> node" where
  "new_node e par = \<lparr>node_element = e, node_parent = par, node_left = None,
     node_right = None, node_balance_factor = 0\<rparr>"

definition add_root :: "tree \<Rightarrow> heap \<Rightarrow> nat \<Rightarrow> position outcome" where
  "add_root t h e =
     (if tree_root t \<noteq> None then (Inl ValueError, t, h)
      else (Inr \<lparr>pos_class = TreeMap_Position, pos_container = tree_ident t, pos_node = length h\<rparr>,
            t\<lparr>tree_size := 1, tree_root := Some (length h)\<rparr>,
            h @ [new_node e None]))"

definition add_left ::
  "tree \<Rightarrow> heap \<Rightarrow> position option \<Rightarrow> nat \<Rightarrow> position outcome" where
  "add_left t h p e = (case validate t h p of
       Inl x \<Rightarrow> (Inl x, t, h)
     | Inr a \<Rightarrow>
         if node_left (h ! a) \<noteq> None then (Inl ValueError, t, h)
         else (Inr \<lparr>pos_class = TreeMap_Position, pos_container = tree_ident t, pos_node = length h\<rparr>,
               t\<lparr>tree_size := tree_size t + 1\<rparr>,
               h[a := (h ! a)\<lparr>node_left := Some (length h)\<rparr>] @ [new_node e (Some a)]))"

definition add_right ::
  "tree \<Rightarrow> heap \<Rightarrow> position option \<Rightarrow> nat \<Rightarrow> position outcome" where
  "add_right t h p e = (case validate t h p of
       Inl x \<Rightarrow> (Inl x, t, h)
     | Inr a \<Rightarrow>
         if node_right (h ! a) \<noteq> None then (Inl ValueError, t, h)
         else (Inr \<lparr>pos_class = TreeMap_Position, pos_container = tree_ident t, pos_node = length h\<rparr>,
               t\<lparr>tree_size := tree_size t + 1\<rparr>,
               h[a := (h ! a)\<lparr>node_right := Some (length h)\<rparr>] @ [new_node e (Some a)]))"

definition replace ::
  "tree \<Rightarrow> heap \<Rightarrow> position option \<Rightarrow> nat \<Rightarrow> nat outcome" where
  "replace t h p e = (case validate t h p of
       Inl x \<Rightarrow> (Inl x, t, h)
     | Inr a \<Rightarrow> (Inr (node_element (h ! a)), t, h[a := (h ! a)\<lparr>node_element := e\<rparr>]))"

text \<open>
  \<^verbatim>\<open>_delete\<close>. The local \<^verbatim>\<open>parent\<close> is assigned in the \<^verbatim>\<open>else\<close> branch of
  \<^verbatim>\<open>if node is self._root\<close> only, and the statement that reads it,
  \<^verbatim>\<open>if node is parent._left\<close>, stands after that conditional: when the node is the root,
  the read raises \<^verbatim>\<open>UnboundLocalError\<close>, after the child and the root were relinked.
  When the node is not the root and has no parent, \<^verbatim>\<open>parent._left\<close> raises
  \<^verbatim>\<open>AttributeError\<close>.
\<close>

definition delete_node ::
  "tree \<Rightarrow> heap \<Rightarrow> position option \<Rightarrow> nat outcome" where
  "delete_node t h p = (case validate t h p of
       Inl x \<Rightarrow> (Inl x, t, h)
     | Inr a \<Rightarrow>
         if num_children t h p = Inr 2 then (Inl ValueError, t, h)
         else
           let child = (case node_left (h ! a) of Some l \<Rightarrow> Some l | None \<Rightarrow> node_right (h ! a));
               h1 = (case child of
                       None \<Rightarrow> h
                     | Some c \<Rightarrow> h[c := (h ! c)\<lparr>node_parent := node_parent (h ! a)\<rparr>])
           in if tree_root t = Some a then (Inl UnboundLocalError, t\<lparr>tree_root := child\<rparr>, h1)
              else (case node_parent (h1 ! a) of
                      None \<Rightarrow> (Inl AttributeError, t, h1)
                    | Some par \<Rightarrow>
                        let h2 = (if node_left (h1 ! par) = Some a
                                  then h1[par := (h1 ! par)\<lparr>node_left := child\<rparr>]
                                  else h1[par := (h1 ! par)\<lparr>node_right := child\<rparr>]);
                            h3 = h2[a := (h2 ! a)\<lparr>node_parent := Some a\<rparr>]
                        in (Inr (node_element (h3 ! a)),
                            t\<lparr>tree_size := tree_size t - 1\<rparr>, h3)))"

text \<open>
  \<^verbatim>\<open>_attach\<close>, for three distinct tree objects \<open>t\<close>, \<open>t1\<close> and \<open>t2\<close> on one heap; the
  three trees are returned in that order.
\<close>

definition attach ::
  "tree \<Rightarrow> tree \<Rightarrow> tree \<Rightarrow> heap \<Rightarrow> position option \<Rightarrow>
     (error + unit) \<times> (tree \<times> tree \<times> tree) \<times> heap" where
  "attach t t1 t2 h p = (case validate t h p of
       Inl x \<Rightarrow> (Inl x, (t, t1, t2), h)
     | Inr a \<Rightarrow>
         if is_leaf t h p \<noteq> Inr True then (Inl ValueError, (t, t1, t2), h)
         else if \<not> (tree_cls t = tree_cls t1 \<and> tree_cls t1 = tree_cls t2)
           then (Inl TypeError, (t, t1, t2), h)
         else
           let t' = t\<lparr>tree_size := tree_size t + (tree_size t1 + tree_size t2)\<rparr> in
           if \<not> is_empty t1 then
             (case tree_root t1 of
                None \<Rightarrow> (Inl AttributeError, (t', t1, t2), h)
              | Some r1 \<Rightarrow>
                  let h1 = h[r1 := (h ! r1)\<lparr>node_parent := Some a\<rparr>];
                      h2 = h1[a := (h1 ! a)\<lparr>node_left := Some r1\<rparr>];
                      t1' = t1\<lparr>tree_root := None, tree_size := 0\<rparr>
                  in if \<not> is_empty t2 then
                       (case tree_root t2 of
                          None \<Rightarrow> (Inl AttributeError, (t', t1', t2), h2)
                        | Some r2 \<Rightarrow>
                            let h3 = h2[r2 := (h2 ! r2)\<lparr>node_parent := Some a\<rparr>];
                                h4 = h3[a := (h3 ! a)\<lparr>node_right := Some r2\<rparr>]
                            in (Inr (), (t', t1', t2\<lparr>tree_root := None, tree_size := 0\<rparr>), h4))
                     else (Inr (), (t', t1', t2), h2))
           else if \<not> is_empty t2 then
             (case tree_root t2 of
                None \<Rightarrow> (Inl AttributeError, (t', t1, t2), h)
              | Some r2 \<Rightarrow>
                  let h3 = h[r2 := (h ! r2)\<lparr>node_parent := Some a\<rparr>];
                      h4 = h3[a := (h3 ! a)\<lparr>node_right := Some r2\<rparr>]
                  in (Inr (), (t', t1, t2\<lparr>tree_root := None, tree_size := 0\<rparr>), h4))
           else (Inr (), (t', t1, t2), h))"

section \<open>TreeMap\<close>

text \<open>
  \<^verbatim>\<open>Position.key\<close> and \<^verbatim>\<open>Position.value\<close>, methods of \<^verbatim>\<open>TreeMap.Position\<close>, read the
  item of the node without validating the position.
\<close>

definition key :: "heap \<Rightarrow> ('k, 'v) items \<Rightarrow> position \<Rightarrow> 'k" where
  "key h its q = fst (its ! node_element (h ! pos_node q))"

definition val :: "heap \<Rightarrow> ('k, 'v) items \<Rightarrow> position \<Rightarrow> 'v" where
  "val h its q = snd (its ! node_element (h ! pos_node q))"

text \<open>
  \<^verbatim>\<open>_subtree_search\<close>. The call \<^verbatim>\<open>p.key()\<close> raises \<^verbatim>\<open>AttributeError\<close> on \<^verbatim>\<open>None\<close>
  and on a \<^verbatim>\<open>LinkedBinaryTree.Position\<close>, which has no method \<^verbatim>\<open>key\<close>.
\<close>

partial_function (option) subtree_search ::
  "tree \<Rightarrow> heap \<Rightarrow> ('k::linorder, 'v) items \<Rightarrow> position option \<Rightarrow> 'k \<Rightarrow>
     (error + position) option" where
  "subtree_search t h its p k = (case p of
       None \<Rightarrow> Some (Inl AttributeError)
     | Some q \<Rightarrow>
         if pos_class q \<noteq> TreeMap_Position then Some (Inl AttributeError)
         else if k = key h its q then Some (Inr q)
         else if k < key h its q then
           (case left t h p of
              Inl e \<Rightarrow> Some (Inl e)
            | Inr None \<Rightarrow> Some (Inr q)
            | Inr (Some l) \<Rightarrow> subtree_search t h its (Some l) k)
         else
           (case right t h p of
              Inl e \<Rightarrow> Some (Inl e)
            | Inr None \<Rightarrow> Some (Inr q)
            | Inr (Some r) \<Rightarrow> subtree_search t h its (Some r) k))"

declare subtree_search.simps [code]

partial_function (option) subtree_first_position ::
  "tree \<Rightarrow> heap \<Rightarrow> position option \<Rightarrow> (error + position option) option" where
  "subtree_first_position t h walk = (case left t h walk of
       Inl e \<Rightarrow> Some (Inl e)
     | Inr None \<Rightarrow> Some (Inr walk)
     | Inr (Some l) \<Rightarrow> subtree_first_position t h (Some l))"

declare subtree_first_position.simps [code]

partial_function (option) subtree_last_position ::
  "tree \<Rightarrow> heap \<Rightarrow> position option \<Rightarrow> (error + position option) option" where
  "subtree_last_position t h walk = (case right t h walk of
       Inl e \<Rightarrow> Some (Inl e)
     | Inr None \<Rightarrow> Some (Inr walk)
     | Inr (Some r) \<Rightarrow> subtree_last_position t h (Some r))"

declare subtree_last_position.simps [code]

definition first :: "tree \<Rightarrow> heap \<Rightarrow> (error + position option) option" where
  "first t h = (if tree_size t > 0 then subtree_first_position t h (root t) else Some (Inr None))"

definition last_position :: "tree \<Rightarrow> heap \<Rightarrow> (error + position option) option" where
  "last_position t h =
     (if tree_size t > 0 then subtree_last_position t h (root t) else Some (Inr None))"

text \<open>The upward walks of \<^verbatim>\<open>before\<close> and \<^verbatim>\<open>after\<close>.\<close>

partial_function (option) before_walk ::
  "tree \<Rightarrow> heap \<Rightarrow> position option \<Rightarrow> position option \<Rightarrow>
     (error + position option) option" where
  "before_walk t h walk abv = (case abv of
       None \<Rightarrow> Some (Inr abv)
     | Some ab \<Rightarrow>
         (case left t h abv of
            Inl e \<Rightarrow> Some (Inl e)
          | Inr l \<Rightarrow>
              if pos_eq walk l then
                (case parent t h abv of
                   Inl e \<Rightarrow> Some (Inl e)
                 | Inr nxt \<Rightarrow> before_walk t h abv nxt)
              else Some (Inr abv)))"

declare before_walk.simps [code]

partial_function (option) after_walk ::
  "tree \<Rightarrow> heap \<Rightarrow> position option \<Rightarrow> position option \<Rightarrow>
     (error + position option) option" where
  "after_walk t h walk abv = (case abv of
       None \<Rightarrow> Some (Inr abv)
     | Some ab \<Rightarrow>
         (case right t h abv of
            Inl e \<Rightarrow> Some (Inl e)
          | Inr r \<Rightarrow>
              if pos_eq walk r then
                (case parent t h abv of
                   Inl e \<Rightarrow> Some (Inl e)
                 | Inr nxt \<Rightarrow> after_walk t h abv nxt)
              else Some (Inr abv)))"

declare after_walk.simps [code]

definition before ::
  "tree \<Rightarrow> heap \<Rightarrow> position option \<Rightarrow> (error + position option) option" where
  "before t h p = (case validate t h p of
       Inl e \<Rightarrow> Some (Inl e)
     | Inr a \<Rightarrow>
         (case left t h p of
            Inl e \<Rightarrow> Some (Inl e)
          | Inr (Some l) \<Rightarrow> subtree_last_position t h (Some l)
          | Inr None \<Rightarrow>
              (case parent t h p of
                 Inl e \<Rightarrow> Some (Inl e)
               | Inr abv \<Rightarrow> before_walk t h p abv)))"

definition after ::
  "tree \<Rightarrow> heap \<Rightarrow> position option \<Rightarrow> (error + position option) option" where
  "after t h p = (case validate t h p of
       Inl e \<Rightarrow> Some (Inl e)
     | Inr a \<Rightarrow>
         (case right t h p of
            Inl e \<Rightarrow> Some (Inl e)
          | Inr (Some r) \<Rightarrow> subtree_first_position t h (Some r)
          | Inr None \<Rightarrow>
              (case parent t h p of
                 Inl e \<Rightarrow> Some (Inl e)
               | Inr abv \<Rightarrow> after_walk t h p abv)))"

text \<open>The hook \<^verbatim>\<open>_rebalance_access\<close> is \<^verbatim>\<open>pass\<close> in both classes.\<close>

definition find_position ::
  "tree \<Rightarrow> heap \<Rightarrow> ('k::linorder, 'v) items \<Rightarrow> 'k \<Rightarrow> (error + position option) option" where
  "find_position t h its k =
     (if is_empty t then Some (Inr None)
      else Option.bind (subtree_search t h its (root t) k)
             (\<lambda>r. Some (case r of Inl e \<Rightarrow> Inl e | Inr p \<Rightarrow> Inr (Some p))))"

subsection \<open>Rotation and trinode restructuring\<close>

definition relink :: "heap \<Rightarrow> nat \<Rightarrow> nat option \<Rightarrow> bool \<Rightarrow> heap" where
  "relink h par child make_left_child =
     (let h1 = (if make_left_child then h[par := (h ! par)\<lparr>node_left := child\<rparr>]
                else h[par := (h ! par)\<lparr>node_right := child\<rparr>])
      in case child of
           None \<Rightarrow> h1
         | Some c \<Rightarrow> h1[c := (h1 ! c)\<lparr>node_parent := Some par\<rparr>])"

text \<open>
  \<^verbatim>\<open>update_balance_factor_for_add\<close>, \<^verbatim>\<open>update_balance_factor_for_delete\<close> and
  \<^verbatim>\<open>update_balance_factor_for_rotate\<close>: the body of each is \<^verbatim>\<open>pass\<close>.
\<close>

definition update_balance_factor_for_add ::
  "tree \<Rightarrow> heap \<Rightarrow> position option \<Rightarrow> heap" where
  "update_balance_factor_for_add t h p = h"

definition update_balance_factor_for_delete ::
  "tree \<Rightarrow> heap \<Rightarrow> position option \<Rightarrow> heap" where
  "update_balance_factor_for_delete t h p = h"

definition update_balance_factor_for_rotate ::
  "tree \<Rightarrow> heap \<Rightarrow> position option \<Rightarrow> heap" where
  "update_balance_factor_for_rotate t h p = h"

text \<open>
  \<^verbatim>\<open>_rotate\<close>: \<^verbatim>\<open>TreeMap._rotate\<close> relinks; the override \<^verbatim>\<open>AVLTreeMap._rotate\<close> relinks
  in the same way, then recomputes the two balance factors and calls
  \<^verbatim>\<open>update_balance_factor_for_rotate\<close>.
\<close>

definition rotate :: "tree \<Rightarrow> heap \<Rightarrow> position option \<Rightarrow> unit outcome" where
  "rotate t h p = (case p of
       None \<Rightarrow> (Inl AttributeError, t, h)
     | Some q \<Rightarrow>
         let x = pos_node q in
         (case node_parent (h ! x) of
            None \<Rightarrow> (Inl AttributeError, t, h)
          | Some y \<Rightarrow>
              let z = node_parent (h ! y);
                  t1 = (case z of None \<Rightarrow> t\<lparr>tree_root := Some x\<rparr> | Some g \<Rightarrow> t);
                  h1 = (case z of
                          None \<Rightarrow> h[x := (h ! x)\<lparr>node_parent := None\<rparr>]
                        | Some g \<Rightarrow> relink h g (Some x) (Some y = node_left (h ! g)))
              in if Some x = node_left (h1 ! y) then
                   let h2 = relink h1 y (node_right (h1 ! x)) True;
                       h3 = relink h2 x (Some y) False
                   in if tree_cls t = AVLTreeMap then
                        let h4 = h3[y := (h3 ! y)\<lparr>node_balance_factor :=
                                   node_balance_factor (h3 ! y) - 1
                                     - max (node_balance_factor (h3 ! x)) 0\<rparr>];
                            h5 = h4[x := (h4 ! x)\<lparr>node_balance_factor :=
                                   node_balance_factor (h4 ! x) - 1
                                     + min (node_balance_factor (h4 ! y)) 0\<rparr>]
                        in (Inr (), t1, update_balance_factor_for_rotate t1 h5 p)
                      else (Inr (), t1, h3)
                 else
                   let h2 = relink h1 y (node_left (h1 ! x)) False;
                       h3 = relink h2 x (Some y) True
                   in if tree_cls t = AVLTreeMap then
                        let h4 = h3[y := (h3 ! y)\<lparr>node_balance_factor :=
                                   node_balance_factor (h3 ! y) + 1
                                     - min (node_balance_factor (h3 ! x)) 0\<rparr>];
                            h5 = h4[x := (h4 ! x)\<lparr>node_balance_factor :=
                                   node_balance_factor (h4 ! x) + 1
                                     + max (node_balance_factor (h4 ! y)) 0\<rparr>]
                        in (Inr (), t1, update_balance_factor_for_rotate t1 h5 p)
                      else (Inr (), t1, h3)))"

definition restructure ::
  "tree \<Rightarrow> heap \<Rightarrow> position option \<Rightarrow> position option outcome" where
  "restructure t h x = (case parent t h x of
       Inl e \<Rightarrow> (Inl e, t, h)
     | Inr y \<Rightarrow>
         (case parent t h y of
            Inl e \<Rightarrow> (Inl e, t, h)
          | Inr z \<Rightarrow>
              (case right t h y of
                 Inl e \<Rightarrow> (Inl e, t, h)
               | Inr ry \<Rightarrow>
                   (case right t h z of
                      Inl e \<Rightarrow> (Inl e, t, h)
                    | Inr rz \<Rightarrow>
                        if pos_eq x ry = pos_eq y rz then
                          (case rotate t h y of
                             (Inl e, t1, h1) \<Rightarrow> (Inl e, t1, h1)
                           | (Inr u, t1, h1) \<Rightarrow> (Inr y, t1, h1))
                        else
                          (case rotate t h x of
                             (Inl e, t1, h1) \<Rightarrow> (Inl e, t1, h1)
                           | (Inr u, t1, h1) \<Rightarrow>
                               (case rotate t1 h1 x of
                                  (Inl e, t2, h2) \<Rightarrow> (Inl e, t2, h2)
                                | (Inr u, t2, h2) \<Rightarrow> (Inr x, t2, h2)))))))"

section \<open>AVLTreeMap\<close>

definition isbalanced :: "heap \<Rightarrow> position \<Rightarrow> bool" where
  "isbalanced h q = (\<bar>node_balance_factor (h ! pos_node q)\<bar> \<le> 1)"

definition tall_child ::
  "tree \<Rightarrow> heap \<Rightarrow> position option \<Rightarrow> bool \<Rightarrow> error + position option" where
  "tall_child t h p favorleft = (case p of
       None \<Rightarrow> Inl AttributeError
     | Some q \<Rightarrow>
         if node_balance_factor (h ! pos_node q) + (if favorleft then 1 else 0) > 0
         then left t h p else right t h p)"

definition tall_grandchild ::
  "tree \<Rightarrow> heap \<Rightarrow> position option \<Rightarrow> error + position option" where
  "tall_grandchild t h p = (case tall_child t h p False of
       Inl e \<Rightarrow> Inl e
     | Inr child \<Rightarrow>
         (case left t h p of
            Inl e \<Rightarrow> Inl e
          | Inr l \<Rightarrow> tall_child t h child (pos_eq child l)))"

partial_function (option) rebalance ::
  "tree \<Rightarrow> heap \<Rightarrow> position option \<Rightarrow> unit outcome option" where
  "rebalance t h p = (case p of
       None \<Rightarrow> Some (Inr (), t, h)
     | Some q \<Rightarrow>
         if \<not> isbalanced h q then
           (case tall_grandchild t h p of
              Inl e \<Rightarrow> Some (Inl e, t, h)
            | Inr g \<Rightarrow>
                (case restructure t h g of
                   (Inl e, t1, h1) \<Rightarrow> Some (Inl e, t1, h1)
                 | (Inr p1, t1, h1) \<Rightarrow>
                     (case parent t1 h1 p1 of
                        Inl e \<Rightarrow> Some (Inl e, t1, h1)
                      | Inr p2 \<Rightarrow> rebalance t1 h1 p2)))
         else
           (case parent t h p of
              Inl e \<Rightarrow> Some (Inl e, t, h)
            | Inr p2 \<Rightarrow> rebalance t h p2))"

declare rebalance.simps [code]

text \<open>
  The hooks \<^verbatim>\<open>_rebalance_insert\<close> and \<^verbatim>\<open>_rebalance_delete\<close>: \<^verbatim>\<open>pass\<close> in
  \<^verbatim>\<open>TreeMap\<close>, overridden in \<^verbatim>\<open>AVLTreeMap\<close>.
\<close>

definition rebalance_insert ::
  "tree \<Rightarrow> heap \<Rightarrow> position option \<Rightarrow> unit outcome option" where
  "rebalance_insert t h p = (case tree_cls t of
       TreeMap \<Rightarrow> Some (Inr (), t, h)
     | AVLTreeMap \<Rightarrow> rebalance t (update_balance_factor_for_add t h p) p)"

definition rebalance_delete ::
  "tree \<Rightarrow> heap \<Rightarrow> position option \<Rightarrow> unit outcome option" where
  "rebalance_delete t h p = (case tree_cls t of
       TreeMap \<Rightarrow> Some (Inr (), t, h)
     | AVLTreeMap \<Rightarrow> rebalance t h p)"

section \<open>The map interface\<close>

text \<open>
  \<^verbatim>\<open>delete\<close>: \<^verbatim>\<open>TreeMap.delete\<close>, and its override \<^verbatim>\<open>AVLTreeMap.delete\<close>, which differs
  by the call of \<^verbatim>\<open>update_balance_factor_for_delete\<close>. \<open>delete_at\<close> is the part of both
  from the comment \<^verbatim>\<open>now p has at most one child\<close> on.
\<close>

definition delete_at ::
  "tree \<Rightarrow> heap \<Rightarrow> position option \<Rightarrow> unit outcome option" where
  "delete_at t h p = (case parent t h p of
       Inl e \<Rightarrow> Some (Inl e, t, h)
     | Inr par \<Rightarrow>
         let h0 = (case tree_cls t of
                     TreeMap \<Rightarrow> h
                   | AVLTreeMap \<Rightarrow> update_balance_factor_for_delete t h p)
         in (case delete_node t h0 p of
               (Inl e, t1, h1) \<Rightarrow> Some (Inl e, t1, h1)
             | (Inr old, t1, h1) \<Rightarrow> rebalance_delete t1 h1 par))"

definition delete ::
  "tree \<Rightarrow> heap \<Rightarrow> position option \<Rightarrow> unit outcome option" where
  "delete t h p = (case validate t h p of
       Inl e \<Rightarrow> Some (Inl e, t, h)
     | Inr a \<Rightarrow>
         (case left t h p of
            Inl e \<Rightarrow> Some (Inl e, t, h)
          | Inr l \<Rightarrow>
              (case right t h p of
                 Inl e \<Rightarrow> Some (Inl e, t, h)
               | Inr r \<Rightarrow>
                   if l \<noteq> None \<and> r \<noteq> None then
                     (case subtree_last_position t h l of
                        None \<Rightarrow> None
                      | Some (Inl e) \<Rightarrow> Some (Inl e, t, h)
                      | Some (Inr None) \<Rightarrow> Some (Inl AttributeError, t, h)
                      | Some (Inr (Some replacement)) \<Rightarrow>
                          (case replace t h p (node_element (h ! pos_node replacement)) of
                             (Inl e, t1, h1) \<Rightarrow> Some (Inl e, t1, h1)
                           | (Inr old, t1, h1) \<Rightarrow> delete_at t1 h1 (Some replacement)))
                   else delete_at t h p)))"

text \<open>
  \<^verbatim>\<open>__setitem__\<close>. \<^verbatim>\<open>self._Item(k,v)\<close> makes a new item at the end of the item store;
  \<^verbatim>\<open>p.element()._value = v\<close> sets the value of the item of \<^verbatim>\<open>p\<close> in the store, for
  every node that refers to that item.
\<close>

definition setitem ::
  "tree \<Rightarrow> heap \<Rightarrow> ('k::linorder, 'v) items \<Rightarrow> 'k \<Rightarrow> 'v \<Rightarrow> (unit, 'k, 'v) map_outcome option" where
  "setitem t h its k v =
     (if is_empty t then
        (case add_root t h (length its) of
           (Inl e, t1, h1) \<Rightarrow> Some (Inl e, t1, h1, its @ [(k, v)])
         | (Inr leaf, t1, h1) \<Rightarrow>
             (case rebalance_insert t1 h1 (Some leaf) of
                None \<Rightarrow> None
              | Some (r, t2, h2) \<Rightarrow> Some (r, t2, h2, its @ [(k, v)])))
      else
        (case subtree_search t h its (root t) k of
           None \<Rightarrow> None
         | Some (Inl e) \<Rightarrow> Some (Inl e, t, h, its)
         | Some (Inr p) \<Rightarrow>
             if key h its p = k then
               Some (Inr (), t, h,
                     its[node_element (h ! pos_node p) := (key h its p, v)])
             else
               (case (if key h its p < k then add_right t h (Some p) (length its)
                      else add_left t h (Some p) (length its)) of
                  (Inl e, t1, h1) \<Rightarrow> Some (Inl e, t1, h1, its @ [(k, v)])
                | (Inr leaf, t1, h1) \<Rightarrow>
                    (case rebalance_insert t1 h1 (Some leaf) of
                       None \<Rightarrow> None
                     | Some (r, t2, h2) \<Rightarrow> Some (r, t2, h2, its @ [(k, v)])))))"

text \<open>\<^verbatim>\<open>__delitem__\<close>; it makes and changes no item.\<close>

definition delitem ::
  "tree \<Rightarrow> heap \<Rightarrow> ('k::linorder, 'v) items \<Rightarrow> 'k \<Rightarrow> unit outcome option" where
  "delitem t h its k =
     (if \<not> is_empty t then
        (case subtree_search t h its (root t) k of
           None \<Rightarrow> None
         | Some (Inl e) \<Rightarrow> Some (Inl e, t, h)
         | Some (Inr p) \<Rightarrow>
             if k = key h its p then delete t h (Some p) else Some (Inl KeyError, t, h))
      else Some (Inl KeyError, t, h))"

definition find_ge ::
  "tree \<Rightarrow> heap \<Rightarrow> ('k::linorder, 'v) items \<Rightarrow> 'k \<Rightarrow> (error + ('k \<times> 'v) option) option" where
  "find_ge t h its k =
     (if is_empty t then Some (Inr None)
      else
        (case find_position t h its k of
           None \<Rightarrow> None
         | Some (Inl e) \<Rightarrow> Some (Inl e)
         | Some (Inr None) \<Rightarrow> Some (Inl AttributeError)
         | Some (Inr (Some q)) \<Rightarrow>
             Option.bind (if key h its q < k then after t h (Some q) else Some (Inr (Some q)))
               (\<lambda>r. Some (case r of
                    Inl e \<Rightarrow> Inl e
                  | Inr None \<Rightarrow> Inr None
                  | Inr (Some p) \<Rightarrow> Inr (Some (key h its p, val h its p))))))"

text \<open>The generator \<^verbatim>\<open>find_range\<close>, run to its end; \<open>range_loop\<close> is its \<^verbatim>\<open>while\<close> loop.\<close>

partial_function (option) range_loop ::
  "tree \<Rightarrow> heap \<Rightarrow> ('k::linorder, 'v) items \<Rightarrow> position option \<Rightarrow> 'k option \<Rightarrow>
     (error + ('k \<times> 'v) list) option" where
  "range_loop t h its p stop = (case p of
       None \<Rightarrow> Some (Inr [])
     | Some q \<Rightarrow>
         if (case stop of None \<Rightarrow> True | Some s \<Rightarrow> key h its q < s) then
           (case after t h p of
              None \<Rightarrow> None
            | Some (Inl e) \<Rightarrow> Some (Inl e)
            | Some (Inr p1) \<Rightarrow>
                Option.bind (range_loop t h its p1 stop)
                  (\<lambda>r. Some (case r of
                       Inl e \<Rightarrow> Inl e
                     | Inr items \<Rightarrow> Inr ((key h its q, val h its q) # items))))
         else Some (Inr []))"

declare range_loop.simps [code]

definition find_range ::
  "tree \<Rightarrow> heap \<Rightarrow> ('k::linorder, 'v) items \<Rightarrow> 'k option \<Rightarrow> 'k option \<Rightarrow>
     (error + ('k \<times> 'v) list) option" where
  "find_range t h its start stop =
     (if \<not> is_empty t then
        (case (case start of
                 None \<Rightarrow> first t h
               | Some s \<Rightarrow>
                   (case find_position t h its s of
                      None \<Rightarrow> None
                    | Some (Inl e) \<Rightarrow> Some (Inl e)
                    | Some (Inr None) \<Rightarrow> Some (Inl AttributeError)
                    | Some (Inr (Some q)) \<Rightarrow>
                        if key h its q < s then after t h (Some q) else Some (Inr (Some q)))) of
           None \<Rightarrow> None
         | Some (Inl e) \<Rightarrow> Some (Inl e)
         | Some (Inr p) \<Rightarrow> range_loop t h its p stop)
      else Some (Inr []))"

section \<open>Construction and runs of operations\<close>

text \<open>\<^verbatim>\<open>LinkedBinaryTree.__init__\<close>: an empty tree of the given identity and class.\<close>

definition empty_tree :: "nat \<Rightarrow> cls \<Rightarrow> tree" where
  "empty_tree i c = \<lparr>tree_ident = i, tree_cls = c, tree_root = None, tree_size = 0\<rparr>"

text \<open>
  The statements \<^verbatim>\<open>t[k] = v\<close> of a test, one after the other; an exception ends the run.
\<close>

fun setitems ::
  "tree \<Rightarrow> heap \<Rightarrow> ('k::linorder, 'v) items \<Rightarrow> ('k \<times> 'v) list \<Rightarrow>
     (unit, 'k, 'v) map_outcome option" where
  "setitems t h its [] = Some (Inr (), t, h, its)"
| "setitems t h its ((k, v) # kvs) = (case setitem t h its k v of
       None \<Rightarrow> None
     | Some (Inl e, t1, h1, its1) \<Rightarrow> Some (Inl e, t1, h1, its1)
     | Some (Inr u, t1, h1, its1) \<Rightarrow> setitems t1 h1 its1 kvs)"

text \<open>
  The height of the AVL layer's documentation, computed from the links alone: a missing
  subtree has height 0, a leaf has height 1.
\<close>

partial_function (option) avl_height :: "heap \<Rightarrow> nat option \<Rightarrow> nat option" where
  "avl_height h n = (case n of
       None \<Rightarrow> Some 0
     | Some a \<Rightarrow>
         Option.bind (avl_height h (node_left (h ! a)))
           (\<lambda>l. Option.bind (avl_height h (node_right (h ! a)))
                  (\<lambda>r. Some (1 + max l r))))"

declare avl_height.simps [code]

text \<open>
  The AVL invariant of the documentation at one node: the stored balance factor is the
  height of the left subtree minus the height of the right subtree, and is at most 1 in
  absolute value.
\<close>

definition avl_invariant_at :: "heap \<Rightarrow> nat \<Rightarrow> bool" where
  "avl_invariant_at h a =
     (case avl_height h (node_left (h ! a)) of
        None \<Rightarrow> False
      | Some l \<Rightarrow>
          (case avl_height h (node_right (h ! a)) of
             None \<Rightarrow> False
           | Some r \<Rightarrow> node_balance_factor (h ! a) = int l - int r
                        \<and> \<bar>node_balance_factor (h ! a)\<bar> \<le> 1))"

section \<open>The shape of a linked tree\<close>

text \<open>
  The proofs relate a heap to the binary tree its links draw. A shape is that tree, with
  the address of a node at each branch.
\<close>

datatype shape = Tip | Br shape nat shape

text \<open>The addresses of a shape in in-order.\<close>

fun nodes_of :: "shape \<Rightarrow> nat list" where
  "nodes_of Tip = []"
| "nodes_of (Br l a r) = nodes_of l @ a # nodes_of r"

fun shape_root :: "shape \<Rightarrow> nat option" where
  "shape_root Tip = None"
| "shape_root (Br l a r) = Some a"

text \<open>
  \<open>linked h par s\<close>: in the heap \<open>h\<close> the nodes of \<open>s\<close> are linked as \<open>s\<close> draws them,
  below the parent \<open>par\<close>: every \<^verbatim>\<open>_parent\<close>, \<^verbatim>\<open>_left\<close> and \<^verbatim>\<open>_right\<close> is the one
  of the shape.
\<close>

fun linked :: "heap \<Rightarrow> nat option \<Rightarrow> shape \<Rightarrow> bool" where
  "linked h par Tip = True"
| "linked h par (Br l a r) =
     (a < length h \<and> node_parent (h ! a) = par
      \<and> node_left (h ! a) = shape_root l \<and> node_right (h ! a) = shape_root r
      \<and> linked h (Some a) l \<and> linked h (Some a) r)"

text \<open>The key and the item of the node at an address, read through the item store.\<close>

definition keyat :: "heap \<Rightarrow> ('k, 'v) items \<Rightarrow> nat \<Rightarrow> 'k" where
  "keyat h its a = fst (its ! node_element (h ! a))"

definition item_at :: "heap \<Rightarrow> ('k, 'v) items \<Rightarrow> nat \<Rightarrow> 'k \<times> 'v" where
  "item_at h its a = its ! node_element (h ! a)"

text \<open>The Position that \<^verbatim>\<open>_make_position\<close> makes of the node at an address.\<close>

definition pos_of :: "tree \<Rightarrow> nat \<Rightarrow> position" where
  "pos_of t a = \<lparr>pos_class = TreeMap_Position, pos_container = tree_ident t, pos_node = a\<rparr>"

text \<open>
  The representation invariant of a map: the root and the size are those of the shape,
  the heap is linked as the shape, no node occurs twice and the keys are strictly
  ascending in in-order.
\<close>

definition tm_inv :: "tree \<Rightarrow> heap \<Rightarrow> ('k::linorder, 'v) items \<Rightarrow> shape \<Rightarrow> bool" where
  "tm_inv t h its s =
     (tree_root t = shape_root s \<and> tree_size t = int (length (nodes_of s))
      \<and> linked h None s \<and> distinct (nodes_of s)
      \<and> sorted_wrt (<) (map (keyat h its) (nodes_of s)))"

text \<open>Every node of the shape refers to an item that the store holds.\<close>

definition items_allocated :: "heap \<Rightarrow> ('k, 'v) items \<Rightarrow> shape \<Rightarrow> bool" where
  "items_allocated h its s = list_all (\<lambda>a. node_element (h ! a) < length its) (nodes_of s)"

text \<open>
  The node at which a binary search for \<open>k\<close> ends: the node holding \<open>k\<close>, or the last
  node on the search path.
\<close>

fun anchor :: "(nat \<Rightarrow> 'k::linorder) \<Rightarrow> 'k \<Rightarrow> shape \<Rightarrow> nat option" where
  "anchor f k Tip = None"
| "anchor f k (Br l a r) =
     (if k = f a then Some a
      else if k < f a then (if l = Tip then Some a else anchor f k l)
      else (if r = Tip then Some a else anchor f k r))"

text \<open>The first element of a list, and the element that follows a given one.\<close>

fun hd_opt :: "'a list \<Rightarrow> 'a option" where
  "hd_opt [] = None"
| "hd_opt (x # xs) = Some x"

fun next_in :: "nat list \<Rightarrow> nat \<Rightarrow> nat option" where
  "next_in [] a = None"
| "next_in [x] a = None"
| "next_in (x # y # ys) a = (if x = a then Some y else next_in (y # ys) a)"

text \<open>
  The half-open interval of \<^verbatim>\<open>find_range\<close>: \<^verbatim>\<open>start <= k < stop\<close>, a bound that is
  \<^verbatim>\<open>None\<close> being no bound.
\<close>

definition in_range :: "'k::linorder option \<Rightarrow> 'k option \<Rightarrow> 'k \<Rightarrow> bool" where
  "in_range start stop k =
     ((case start of None \<Rightarrow> True | Some a \<Rightarrow> a \<le> k)
      \<and> (case stop of None \<Rightarrow> True | Some b \<Rightarrow> k < b))"

text \<open>
  What an insertion of the key \<open>k\<close> does: the new node, at the fresh address \<open>n\<close>, hangs
  below the anchor \<open>b\<close>, on the side of \<open>k\<close>, and refers to the new item \<open>e\<close>.
\<close>

fun shape_insert :: "(nat \<Rightarrow> 'k::linorder) \<Rightarrow> 'k \<Rightarrow> nat \<Rightarrow> shape \<Rightarrow> shape" where
  "shape_insert f k n Tip = Br Tip n Tip"
| "shape_insert f k n (Br l a r) =
     (if k = f a then Br l a r
      else if k < f a then Br (shape_insert f k n l) a r
      else Br l a (shape_insert f k n r))"

definition heap_insert :: "heap \<Rightarrow> nat \<Rightarrow> bool \<Rightarrow> nat \<Rightarrow> heap" where
  "heap_insert h b on_right e =
     (if on_right then h[b := (h ! b)\<lparr>node_right := Some (length h)\<rparr>]
      else h[b := (h ! b)\<lparr>node_left := Some (length h)\<rparr>]) @ [new_node e (Some b)]"

definition insert_heap :: "heap \<Rightarrow> ('k::linorder, 'v) items \<Rightarrow> shape \<Rightarrow> 'k \<Rightarrow> heap" where
  "insert_heap h its s k = (case anchor (keyat h its) k s of
       None \<Rightarrow> h @ [new_node (length its) None]
     | Some b \<Rightarrow> heap_insert h b (keyat h its b < k) (length its))"

definition insert_tree :: "tree \<Rightarrow> heap \<Rightarrow> shape \<Rightarrow> tree" where
  "insert_tree t h s = (case s of
       Tip \<Rightarrow> t\<lparr>tree_size := 1, tree_root := Some (length h)\<rparr>
     | Br l a r \<Rightarrow> t\<lparr>tree_size := tree_size t + 1\<rparr>)"

text \<open>The tree object, the heap and the item store that \<^verbatim>\<open>__setitem__\<close> leaves.\<close>

definition setitem_tree :: "tree \<Rightarrow> heap \<Rightarrow> ('k::linorder, 'v) items \<Rightarrow> shape \<Rightarrow> 'k \<Rightarrow> tree" where
  "setitem_tree t h its s k =
     (if k \<in> keyat h its ` set (nodes_of s) then t else insert_tree t h s)"

definition setitem_heap :: "heap \<Rightarrow> ('k::linorder, 'v) items \<Rightarrow> shape \<Rightarrow> 'k \<Rightarrow> heap" where
  "setitem_heap h its s k =
     (if k \<in> keyat h its ` set (nodes_of s) then h else insert_heap h its s k)"

definition setitem_items ::
  "heap \<Rightarrow> ('k::linorder, 'v) items \<Rightarrow> shape \<Rightarrow> 'k \<Rightarrow> 'v \<Rightarrow> ('k, 'v) items" where
  "setitem_items h its s k v =
     (if k \<in> keyat h its ` set (nodes_of s)
      then (case anchor (keyat h its) k s of
              None \<Rightarrow> its
            | Some b \<Rightarrow> its[node_element (h ! b) := (k, v)])
      else its @ [(k, v)])"

text \<open>Every node of the heap stores the balance factor 0.\<close>

definition all_balanced_zero :: "heap \<Rightarrow> bool" where
  "all_balanced_zero h = list_all (\<lambda>n. node_balance_factor n = 0) h"

text \<open>
  A Position of another container, or of a node that is marked as deleted by being its
  own parent; and the exception that \<^verbatim>\<open>_validate\<close> raises for it: \<^verbatim>\<open>TypeError\<close> when it is
  not a \<^verbatim>\<open>TreeMap.Position\<close>, else \<^verbatim>\<open>ValueError\<close>.
\<close>

definition invalid_position :: "tree \<Rightarrow> heap \<Rightarrow> position \<Rightarrow> bool" where
  "invalid_position t h q =
     (pos_container q \<noteq> tree_ident t \<or> node_parent (h ! pos_node q) = Some (pos_node q))"

definition validate_error :: "position \<Rightarrow> error" where
  "validate_error q = (if pos_class q = TreeMap_Position then ValueError else TypeError)"

text \<open>The state a run leaves, and the maps of the scenarios.\<close>

definition state_of :: "(unit, 'k, 'v) map_outcome option \<Rightarrow> tree \<times> heap \<times> ('k, 'v) items" where
  "state_of r = (case r of
       Some (x, t, h, its) \<Rightarrow> (t, h, its)
     | None \<Rightarrow> (empty_tree 0 TreeMap, [], []))"

text \<open>
  Scenario A: the keys 10, 5, 15, 2, 7, 12, 18 set in that order in an empty
  \<^verbatim>\<open>TreeMap\<close> (the map \<^verbatim>\<open>bst\<close> of the file's tests).
\<close>

definition scenario_A :: "tree \<times> heap \<times> (int, string) items" where
  "scenario_A = state_of (setitems (empty_tree 0 TreeMap) [] []
     [(10, ''hi''), (5, ''hi''), (15, ''hi''), (2, ''hi''), (7, ''hi''), (12, ''hi''), (18, ''hi'')])"

text \<open>
  Scenario A after \<^verbatim>\<open>del bst[5]\<close>: the node of key 5 had two children, so it now refers
  to the item of key 2, which the removed node 3 still refers to as well.
\<close>

definition scenario_A_without_5 :: "tree \<times> heap \<times> (int, string) items" where
  "scenario_A_without_5 =
     (case scenario_A of (t, h, its) \<Rightarrow>
        (case delitem t h its 5 of
           Some (r, t1, h1) \<Rightarrow> (t1, h1, its)
         | None \<Rightarrow> (t, h, its)))"

text \<open>Scenario E: a \<^verbatim>\<open>TreeMap\<close> over the keys 2, 5, 7, 10, 12, 18.\<close>

definition scenario_E :: "tree \<times> heap \<times> (int, string) items" where
  "scenario_E = state_of (setitems (empty_tree 0 TreeMap) [] []
     [(10, ''hi''), (5, ''hi''), (12, ''hi''), (2, ''hi''), (7, ''hi''), (18, ''hi'')])"

text \<open>
  Scenario D: two maps \<open>tA\<close> (holding key 1) and \<open>tB\<close> (holding key 2), as two tree
  objects on one heap.
\<close>

definition scenario_D :: "tree \<times> tree \<times> heap \<times> (int, string) items" where
  "scenario_D =
     (let (tA, h1, its1) = state_of (setitems (empty_tree 0 TreeMap) [] [] [(1, ''a'')]);
          (tB, h2, its2) = state_of (setitems (empty_tree 1 TreeMap) h1 its1 [(2, ''b'')])
      in (tA, tB, h2, its2))"

text \<open>The shapes of the trees of these scenarios.\<close>

definition shape_A_without_5 :: shape where
  "shape_A_without_5 = Br (Br Tip 1 (Br Tip 4 Tip)) 0 (Br (Br Tip 5 Tip) 2 (Br Tip 6 Tip))"

definition shape_E :: shape where
  "shape_E = Br (Br (Br Tip 3 Tip) 1 (Br Tip 4 Tip)) 0 (Br Tip 2 (Br Tip 5 Tip))"

section \<open>Navigation in a linked tree\<close>

lemma make_position_simps [simp]:
  "make_position t None = None"
  "make_position t (Some a) = Some (pos_of t a)"
  by (simp_all add: make_position_def pos_of_def)

lemma pos_of_simps [simp]:
  "pos_node (pos_of t a) = a" "pos_container (pos_of t a) = tree_ident t"
  "pos_class (pos_of t a) = TreeMap_Position"
  by (simp_all add: pos_of_def)

lemma key_pos_of [simp]: "key h its (pos_of t a) = keyat h its a"
  by (simp add: key_def keyat_def)

lemma pos_eq_simps [simp]:
  "pos_eq (Some (pos_of t a)) (Some (pos_of t b)) = (a = b)"
  "pos_eq (Some p) None = False"
  "pos_eq None (Some p) = False"
  "pos_eq None None = True"
  by (auto simp: pos_eq_def)

lemma pos_eq_make_position [simp]:
  "pos_eq (Some (pos_of t a)) (make_position t n) = (n = Some a)"
  by (cases n) auto

text \<open>A node that is live: not the tombstone of a deleted node.\<close>

lemma validate_live:
  "node_parent (h ! a) \<noteq> Some a \<Longrightarrow> validate t h (Some (pos_of t a)) = Inr a"
  by (simp add: validate_def)

lemma nav_live:
  assumes "node_parent (h ! a) \<noteq> Some a"
  shows "parent t h (Some (pos_of t a)) = Inr (make_position t (node_parent (h ! a)))"
    and "left t h (Some (pos_of t a)) = Inr (make_position t (node_left (h ! a)))"
    and "right t h (Some (pos_of t a)) = Inr (make_position t (node_right (h ! a)))"
  using assms by (simp_all add: parent_def left_def right_def validate_live)

lemma linked_in_range:
  "linked h par s \<Longrightarrow> a \<in> set (nodes_of s) \<Longrightarrow> a < length h"
  by (induction s arbitrary: par) auto

lemma linked_root_parent:
  "linked h par s \<Longrightarrow> shape_root s = Some a \<Longrightarrow> node_parent (h ! a) = par"
  by (cases s) auto

lemma linked_live:
  "linked h par s \<Longrightarrow> distinct (nodes_of s) \<Longrightarrow> a \<in> set (nodes_of s)
   \<Longrightarrow> par \<noteq> Some a \<Longrightarrow> node_parent (h ! a) \<noteq> Some a"
proof (induction s arbitrary: par)
  case Tip
  then show ?case by simp
next
  case (Br l b r)
  from Br.prems(3) consider "a = b" | "a \<in> set (nodes_of l)" | "a \<in> set (nodes_of r)"
    by auto
  then show ?case
  proof cases
    case 1
    with Br.prems show ?thesis by simp
  next
    case 2
    with Br.prems have "b \<noteq> a" by auto
    with Br.IH(1)[of "Some b"] Br.prems 2 show ?thesis by simp
  next
    case 3
    with Br.prems have "b \<noteq> a" by auto
    with Br.IH(2)[of "Some b"] Br.prems 3 show ?thesis by simp
  qed
qed

lemma linked_frame:
  "linked h par s \<Longrightarrow> \<forall>x\<in>set (nodes_of s). x < length h' \<and> h' ! x = h ! x
   \<Longrightarrow> linked h' par s"
  by (induction s arbitrary: par) auto

lemma shape_root_in: "shape_root s = Some a \<Longrightarrow> a \<in> set (nodes_of s)"
  by (cases s) auto

lemma shape_root_None [simp]: "(shape_root s = None) = (s = Tip)"
  by (cases s) auto

subsection \<open>Search\<close>

lemma anchor_in: "s \<noteq> Tip \<Longrightarrow> \<exists>b. anchor f k s = Some b \<and> b \<in> set (nodes_of s)"
  by (induction s) auto

lemma subtree_search_live:
  assumes "node_parent (h ! a) \<noteq> Some a"
  shows "subtree_search t h its (Some (pos_of t a)) k =
     (if k = keyat h its a then Some (Inr (pos_of t a))
      else if k < keyat h its a then
        (case node_left (h ! a) of
           None \<Rightarrow> Some (Inr (pos_of t a))
         | Some l \<Rightarrow> subtree_search t h its (Some (pos_of t l)) k)
      else
        (case node_right (h ! a) of
           None \<Rightarrow> Some (Inr (pos_of t a))
         | Some r \<Rightarrow> subtree_search t h its (Some (pos_of t r)) k))"
  by (subst subtree_search.simps) (simp add: nav_live[OF assms] split: option.splits)

lemma subtree_search_anchor:
  "linked h par s \<Longrightarrow> distinct (nodes_of s) \<Longrightarrow> shape_root s = Some a
   \<Longrightarrow> par \<noteq> Some a
   \<Longrightarrow> subtree_search t h its (Some (pos_of t a)) k
       = Some (Inr (pos_of t (the (anchor (keyat h its) k s))))"
proof (induction s arbitrary: par a)
  case Tip
  then show ?case by simp
next
  case (Br l b r)
  then have [simp]: "a = b" by simp
  have live: "node_parent (h ! b) \<noteq> Some b"
    using Br.prems by simp
  have L: "l \<noteq> Tip \<Longrightarrow> subtree_search t h its (Some (pos_of t (the (shape_root l)))) k
       = Some (Inr (pos_of t (the (anchor (keyat h its) k l))))"
  proof -
    assume "l \<noteq> Tip"
    then obtain c where c: "shape_root l = Some c" by (cases l) auto
    then have "c \<in> set (nodes_of l)" by (rule shape_root_in)
    with Br.prems have "Some b \<noteq> Some c" by auto
    with Br.IH(1)[of "Some b" c] Br.prems c show ?thesis by simp
  qed
  have R: "r \<noteq> Tip \<Longrightarrow> subtree_search t h its (Some (pos_of t (the (shape_root r)))) k
       = Some (Inr (pos_of t (the (anchor (keyat h its) k r))))"
  proof -
    assume "r \<noteq> Tip"
    then obtain c where c: "shape_root r = Some c" by (cases r) auto
    then have "c \<in> set (nodes_of r)" by (rule shape_root_in)
    with Br.prems have "Some b \<noteq> Some c" by auto
    with Br.IH(2)[of "Some b" c] Br.prems c show ?thesis by simp
  qed
  have nl: "node_left (h ! b) = shape_root l" and nr: "node_right (h ! b) = shape_root r"
    using Br.prems by simp_all
  show ?case
    using L R by (cases l; cases r) (simp_all add: subtree_search_live[OF live] nl nr)
qed

subsection \<open>Successor\<close>

lemma next_in_Cons: "next_in (x # xs) a = (if x = a then hd_opt xs else next_in xs a)"
  by (cases xs) auto

lemma next_in_notin: "a \<notin> set xs \<Longrightarrow> next_in xs a = None"
  by (induction xs a rule: next_in.induct) auto

lemma next_in_append_notin: "a \<notin> set xs \<Longrightarrow> next_in (xs @ ys) a = next_in ys a"
  by (induction xs) (auto simp: next_in_Cons)

lemma next_in_append_Some: "next_in xs a = Some y \<Longrightarrow> next_in (xs @ ys) a = Some y"
  by (induction xs a rule: next_in.induct) (auto split: if_splits)

lemma next_in_append_last:
  "distinct xs \<Longrightarrow> a \<in> set xs \<Longrightarrow> next_in xs a = None \<Longrightarrow> next_in (xs @ ys) a = hd_opt ys"
  by (induction xs a rule: next_in.induct) (auto simp: next_in_Cons split: if_splits)

lemma next_in_split:
  "distinct (pre @ a # post) \<Longrightarrow> next_in (pre @ a # post) a = hd_opt post"
  by (simp add: next_in_append_notin next_in_Cons)

lemma subtree_first_position_live:
  assumes "node_parent (h ! a) \<noteq> Some a"
  shows "subtree_first_position t h (Some (pos_of t a)) =
     (case node_left (h ! a) of
        None \<Rightarrow> Some (Inr (Some (pos_of t a)))
      | Some l \<Rightarrow> subtree_first_position t h (Some (pos_of t l)))"
  by (subst subtree_first_position.simps) (simp add: nav_live[OF assms] split: option.splits)

lemma subtree_first_position_hd:
  "linked h par s \<Longrightarrow> distinct (nodes_of s) \<Longrightarrow> shape_root s = Some a \<Longrightarrow> par \<noteq> Some a
   \<Longrightarrow> subtree_first_position t h (Some (pos_of t a))
       = Some (Inr (Some (pos_of t (hd (nodes_of s)))))"
proof (induction s arbitrary: par a)
  case Tip
  then show ?case by simp
next
  case (Br l b r)
  then have [simp]: "a = b" by simp
  have live: "node_parent (h ! b) \<noteq> Some b" using Br.prems by simp
  show ?case
  proof (cases l)
    case Tip
    with Br.prems show ?thesis by (simp add: subtree_first_position_live[OF live])
  next
    case (Br ll c lr)
    then have c: "shape_root l = Some c" and ne: "nodes_of l \<noteq> []" by simp_all
    have "c \<in> set (nodes_of l)" using c by (rule shape_root_in)
    then have "Some b \<noteq> Some c" using Br.prems by auto
    then have "subtree_first_position t h (Some (pos_of t c))
        = Some (Inr (Some (pos_of t (hd (nodes_of l)))))"
      using Br.IH(1)[of "Some b" c] Br.prems c by simp
    moreover have "node_left (h ! b) = Some c" using Br.prems c by simp
    ultimately show ?thesis
      using ne by (simp add: subtree_first_position_live[OF live])
  qed
qed

lemma after_walk_live:
  assumes "node_parent (h ! b) \<noteq> Some b"
  shows "after_walk t h (Some (pos_of t a)) (Some (pos_of t b)) =
     (if node_right (h ! b) = Some a
      then after_walk t h (Some (pos_of t b)) (make_position t (node_parent (h ! b)))
      else Some (Inr (Some (pos_of t b))))"
  by (subst after_walk.simps) (simp add: nav_live[OF assms])

lemma after_walk_None: "after_walk t h w None = Some (Inr None)"
  by (subst after_walk.simps) simp

text \<open>From the last node of a subtree the walk leaves the subtree through its root.\<close>

lemma after_walk_last:
  "linked h par s \<Longrightarrow> distinct (nodes_of s) \<Longrightarrow> shape_root s = Some r0
   \<Longrightarrow> par \<noteq> Some r0 \<Longrightarrow> x = last (nodes_of s)
   \<Longrightarrow> after_walk t h (Some (pos_of t x)) (make_position t (node_parent (h ! x)))
       = after_walk t h (Some (pos_of t r0)) (make_position t par)"
proof (induction s arbitrary: par r0)
  case Tip
  then show ?case by simp
next
  case (Br l b r)
  then have [simp]: "r0 = b" by simp
  show ?case
  proof (cases r)
    case Tip
    with Br.prems show ?thesis by simp
  next
    case (Br rl c rr)
    with Br.prems have ne: "Some b \<noteq> Some c" by auto
    have x: "x = last (nodes_of r)" using Br.prems Br by simp
    have live: "node_parent (h ! b) \<noteq> Some b" using Br.prems by simp
    have "after_walk t h (Some (pos_of t x)) (make_position t (node_parent (h ! x)))
        = after_walk t h (Some (pos_of t c)) (make_position t (Some b))"
      using Br.IH(2)[of "Some b" c] Br.prems Br ne x by simp
    also have "\<dots> = after_walk t h (Some (pos_of t b)) (make_position t par)"
      using Br.prems Br by (simp add: after_walk_live[OF live])
    finally show ?thesis by simp
  qed
qed

lemma next_in_None_last:
  "distinct xs \<Longrightarrow> a \<in> set xs \<Longrightarrow> (next_in xs a = None) = (a = last xs)"
  by (induction xs a rule: next_in.induct) auto

text \<open>Inside a subtree, the walk from a node without a right child ends at its successor.\<close>

lemma after_walk_next:
  "linked h par s \<Longrightarrow> distinct (nodes_of s) \<Longrightarrow> par \<notin> Some ` set (nodes_of s)
   \<Longrightarrow> x \<in> set (nodes_of s) \<Longrightarrow> node_right (h ! x) = None
   \<Longrightarrow> next_in (nodes_of s) x = Some y
   \<Longrightarrow> after_walk t h (Some (pos_of t x)) (make_position t (node_parent (h ! x)))
       = Some (Inr (Some (pos_of t y)))"
proof (induction s arbitrary: par)
  case Tip
  then show ?case by simp
next
  case (Br l b r)
  have live: "node_parent (h ! b) \<noteq> Some b" using Br.prems by auto
  from Br.prems(4) consider "x = b" | "x \<in> set (nodes_of l)" | "x \<in> set (nodes_of r)"
    by auto
  then show ?case
  proof cases
    case 1
    with Br.prems have "r = Tip" by simp
    with 1 Br.prems show ?thesis by (simp add: next_in_split[of "nodes_of l" b "[]", simplified])
  next
    case 2
    then have lne: "l \<noteq> Tip" by auto
    then obtain c where c: "shape_root l = Some c" by (cases l) auto
    then have cin: "c \<in> set (nodes_of l)" by (rule shape_root_in)
    have pl: "Some b \<notin> Some ` set (nodes_of l)" using Br.prems by auto
    show ?thesis
    proof (cases "next_in (nodes_of l) x")
      case None
      then have xl: "x = last (nodes_of l)"
        using next_in_None_last[of "nodes_of l" x] Br.prems 2 by simp
      have yb: "y = b"
        using next_in_append_last[of "nodes_of l" x "b # nodes_of r"] None 2 Br.prems by simp
      have "after_walk t h (Some (pos_of t x)) (make_position t (node_parent (h ! x)))
          = after_walk t h (Some (pos_of t c)) (make_position t (Some b))"
        using after_walk_last[of h "Some b" l c x t] Br.prems c cin xl by auto
      also have "\<dots> = Some (Inr (Some (pos_of t b)))"
      proof -
        have "node_right (h ! b) \<noteq> Some c"
          using Br.prems cin by (cases r) auto
        then show ?thesis by (simp add: after_walk_live[OF live])
      qed
      finally show ?thesis using yb by simp
    next
      case (Some z)
      then have "y = z"
        using next_in_append_Some[of "nodes_of l" x z "b # nodes_of r"] Br.prems by simp
      with Br.IH(1)[of "Some b"] Br.prems 2 pl Some show ?thesis by simp
    qed
  next
    case 3
    have pr: "Some b \<notin> Some ` set (nodes_of r)" using Br.prems by auto
    have "x \<notin> set (nodes_of l @ [b])" using 3 Br.prems by auto
    then have "next_in (nodes_of (Br l b r)) x = next_in (nodes_of r) x"
      using next_in_append_notin[of x "nodes_of l @ [b]" "nodes_of r"] by simp
    with Br.IH(2)[of "Some b"] Br.prems 3 pr show ?thesis by simp
  qed
qed

lemma after_first:
  "linked h par s \<Longrightarrow> distinct (nodes_of s) \<Longrightarrow> par \<notin> Some ` set (nodes_of s)
   \<Longrightarrow> x \<in> set (nodes_of s) \<Longrightarrow> node_right (h ! x) = Some c
   \<Longrightarrow> \<exists>y. next_in (nodes_of s) x = Some y
         \<and> subtree_first_position t h (Some (pos_of t c)) = Some (Inr (Some (pos_of t y)))"
proof (induction s arbitrary: par)
  case Tip
  then show ?case by simp
next
  case (Br l b r)
  from Br.prems(4) consider "x = b" | "x \<in> set (nodes_of l)" | "x \<in> set (nodes_of r)"
    by auto
  then show ?case
  proof cases
    case 1
    with Br.prems have c: "shape_root r = Some c" by simp
    then have ne: "nodes_of r \<noteq> []" by (cases r) auto
    have "c \<in> set (nodes_of r)" using c by (rule shape_root_in)
    then have "Some b \<noteq> Some c" using Br.prems by auto
    then have "subtree_first_position t h (Some (pos_of t c))
        = Some (Inr (Some (pos_of t (hd (nodes_of r)))))"
      using subtree_first_position_hd[of h "Some b" r c t] Br.prems c by simp
    moreover have "next_in (nodes_of (Br l b r)) x = Some (hd (nodes_of r))"
      using next_in_split[of "nodes_of l" b "nodes_of r"] Br.prems 1 ne
      by (cases "nodes_of r") auto
    ultimately show ?thesis by simp
  next
    case 2
    have pl: "Some b \<notin> Some ` set (nodes_of l)" using Br.prems by auto
    from Br.IH(1)[of "Some b"] Br.prems 2 pl
    obtain y where y: "next_in (nodes_of l) x = Some y"
      "subtree_first_position t h (Some (pos_of t c)) = Some (Inr (Some (pos_of t y)))"
      by auto
    from y(1) have "next_in (nodes_of (Br l b r)) x = Some y"
      using next_in_append_Some[of "nodes_of l" x y "b # nodes_of r"] by simp
    with y(2) show ?thesis by simp
  next
    case 3
    have pr: "Some b \<notin> Some ` set (nodes_of r)" using Br.prems by auto
    have "x \<notin> set (nodes_of l @ [b])" using 3 Br.prems by auto
    then have "next_in (nodes_of (Br l b r)) x = next_in (nodes_of r) x"
      using next_in_append_notin[of x "nodes_of l @ [b]" "nodes_of r"] by simp
    with Br.IH(2)[of "Some b"] Br.prems 3 pr show ?thesis by simp
  qed
qed

lemma after_next_in:
  assumes "linked h None s" and "distinct (nodes_of s)" and "x \<in> set (nodes_of s)"
  shows "after t h (Some (pos_of t x))
       = Some (Inr (map_option (pos_of t) (next_in (nodes_of s) x)))"
proof -
  have live: "node_parent (h ! x) \<noteq> Some x"
    using linked_live[OF assms(1,2,3)] by simp
  have pn: "None \<notin> Some ` set (nodes_of s)" by auto
  show ?thesis
  proof (cases "node_right (h ! x)")
    case (Some c)
    with after_first[OF assms(1,2) pn assms(3), of c t] show ?thesis
      by (auto simp: after_def validate_live[OF live] nav_live[OF live])
  next
    case None
    show ?thesis
    proof (cases "next_in (nodes_of s) x")
      case (Some y)
      with after_walk_next[OF assms(1,2) pn assms(3) None, of y t] None show ?thesis
        by (simp add: after_def validate_live[OF live] nav_live[OF live])
    next
      case nx: None
      then have xl: "x = last (nodes_of s)"
        using next_in_None_last[OF assms(2,3)] by simp
      from assms(3) obtain r0 where r0: "shape_root s = Some r0" by (cases s) auto
      have "after_walk t h (Some (pos_of t x)) (make_position t (node_parent (h ! x)))
          = after_walk t h (Some (pos_of t r0)) (make_position t None)"
        using after_walk_last[OF assms(1,2) r0 _ xl, of t] by simp
      then show ?thesis using None nx
        by (simp add: after_def validate_live[OF live] nav_live[OF live] after_walk_None)
    qed
  qed
qed

lemma val_pos_of [simp]: "val h its (pos_of t a) = snd (its ! node_element (h ! a))"
  by (simp add: val_def)

lemma range_loop_None: "range_loop t h its None stop = Some (Inr [])"
  by (subst range_loop.simps) simp

lemma range_loop_takeWhile:
  assumes "linked h None s" and "distinct (nodes_of s)"
  shows "nodes_of s = pre @ post
   \<Longrightarrow> range_loop t h its (map_option (pos_of t) (hd_opt post)) stop
       = Some (Inr (map (item_at h its)
           (takeWhile (\<lambda>a. case stop of None \<Rightarrow> True | Some b \<Rightarrow> keyat h its a < b) post)))"
proof (induction post arbitrary: pre)
  case Nil
  then show ?case by (simp add: range_loop_None)
next
  case (Cons x post)
  have xin: "x \<in> set (nodes_of s)" using Cons.prems by simp
  have "next_in (nodes_of s) x = hd_opt post"
    using next_in_split[of pre x post] assms(2) Cons.prems by simp
  then have aft: "after t h (Some (pos_of t x)) = Some (Inr (map_option (pos_of t) (hd_opt post)))"
    using after_next_in[OF assms xin, of t] by simp
  have IH: "range_loop t h its (map_option (pos_of t) (hd_opt post)) stop
       = Some (Inr (map (item_at h its)
           (takeWhile (\<lambda>a. case stop of None \<Rightarrow> True | Some b \<Rightarrow> keyat h its a < b) post)))"
    using Cons.IH[of "pre @ [x]"] Cons.prems by simp
  show ?case
    by (subst range_loop.simps) (simp add: aft IH item_at_def keyat_def split: option.splits)
qed

subsection \<open>The search anchor and the lower bound of a key\<close>

lemma hd_opt_append: "xs \<noteq> [] \<Longrightarrow> hd_opt (xs @ ys) = hd_opt xs"
  by (cases xs) auto

lemma hd_opt_None [simp]: "(hd_opt xs = None) = (xs = [])"
  by (cases xs) auto

lemma anchor_lower_bound:
  "sorted_wrt (<) (map f (nodes_of s)) \<Longrightarrow> distinct (nodes_of s) \<Longrightarrow> s \<noteq> Tip
   \<Longrightarrow> anchor f k s = Some b
   \<Longrightarrow> (if f b < k then next_in (nodes_of s) b else Some b)
       = hd_opt (dropWhile (\<lambda>a. f a < k) (nodes_of s))"
proof (induction s arbitrary: b)
  case Tip
  then show ?case by simp
next
  case (Br l a r)
  let ?P = "\<lambda>x. f x < k"
  have sl: "sorted_wrt (<) (map f (nodes_of l))" and sr: "sorted_wrt (<) (map f (nodes_of r))"
    and lt: "\<forall>x\<in>set (nodes_of l). f x < f a" and gt: "\<forall>y\<in>set (nodes_of r). f a < f y"
    using Br.prems(1) by (auto simp: sorted_wrt_append)
  have dl: "distinct (nodes_of l)" and dr: "distinct (nodes_of r)"
    using Br.prems(2) by auto
  consider "k = f a" | "k < f a" "l = Tip" | "k < f a" "l \<noteq> Tip"
    | "f a < k" "r = Tip" | "f a < k" "r \<noteq> Tip"
    by (cases "k = f a"; cases "k < f a"; cases l; cases r) auto
  then show ?case
  proof cases
    case 1
    then have "b = a" using Br.prems by (auto split: if_splits)
    moreover have "dropWhile ?P (nodes_of l @ a # nodes_of r) = a # nodes_of r"
      using lt 1 by (simp add: dropWhile_append2)
    ultimately show ?thesis using 1 by auto
  next
    case 2
    then have "b = a" using Br.prems by (auto split: if_splits)
    then show ?thesis using 2 by auto
  next
    case 3
    then have b: "anchor f k l = Some b" using Br.prems by (auto split: if_splits)
    then have bin: "b \<in> set (nodes_of l)" using anchor_in[OF 3(2), of f k] by simp
    have IH: "(if f b < k then next_in (nodes_of l) b else Some b)
        = hd_opt (dropWhile ?P (nodes_of l))"
      using Br.IH(1)[OF sl dl 3(2) b] .
    show ?thesis
    proof (cases "\<forall>x\<in>set (nodes_of l). ?P x")
      case True
      then have dw: "dropWhile ?P (nodes_of l @ a # nodes_of r) = a # nodes_of r"
        using 3 by (simp add: dropWhile_append2)
      from True have "dropWhile ?P (nodes_of l) = []" by simp
      with IH True bin have "next_in (nodes_of l) b = None" by (auto split: if_splits)
      then have "next_in (nodes_of l @ a # nodes_of r) b = Some a"
        using next_in_append_last[OF dl bin, of "a # nodes_of r"] by simp
      with True bin dw show ?thesis by simp
    next
      case False
      then obtain x where x: "x \<in> set (nodes_of l)" "\<not> ?P x" by auto
      then have dw: "dropWhile ?P (nodes_of l @ a # nodes_of r)
          = dropWhile ?P (nodes_of l) @ a # nodes_of r"
        by (simp add: dropWhile_append1)
      have ne: "dropWhile ?P (nodes_of l) \<noteq> []" using x by (auto simp: dropWhile_eq_Nil_conv)
      then obtain y where y: "hd_opt (dropWhile ?P (nodes_of l)) = Some y"
        by (cases "dropWhile ?P (nodes_of l)") auto
      show ?thesis
      proof (cases "f b < k")
        case True
        with IH y have "next_in (nodes_of l) b = Some y" by simp
        then have "next_in (nodes_of l @ a # nodes_of r) b = Some y"
          by (rule next_in_append_Some)
        then show ?thesis using True dw ne y by (simp add: hd_opt_append)
      next
        case False
        with IH y show ?thesis using dw ne by (simp add: hd_opt_append)
      qed
    qed
  next
    case 4
    then have "b = a" using Br.prems by (auto split: if_splits)
    moreover have "dropWhile ?P (nodes_of l @ [a]) = []" using lt 4 by auto
    moreover have "next_in (nodes_of l @ [a]) a = None"
      using next_in_split[of "nodes_of l" a "[]"] Br.prems(2) by simp
    ultimately show ?thesis using 4 by auto
  next
    case 5
    then have b: "anchor f k r = Some b" using Br.prems by (auto split: if_splits)
    then have bin: "b \<in> set (nodes_of r)" using anchor_in[OF 5(2), of f k] by simp
    have IH: "(if f b < k then next_in (nodes_of r) b else Some b)
        = hd_opt (dropWhile ?P (nodes_of r))"
      using Br.IH(2)[OF sr dr 5(2) b] .
    have "\<forall>x\<in>set (nodes_of l @ [a]). ?P x" using lt 5 by auto
    then have dw: "dropWhile ?P ((nodes_of l @ [a]) @ nodes_of r) = dropWhile ?P (nodes_of r)"
      by (intro dropWhile_append2) auto
    have "b \<notin> set (nodes_of l @ [a])" using bin Br.prems(2) by auto
    then have "next_in ((nodes_of l @ [a]) @ nodes_of r) b = next_in (nodes_of r) b"
      by (rule next_in_append_notin)
    with IH dw show ?thesis by (auto split: if_splits)
  qed
qed

lemma sorted_filter_lower:
  "sorted_wrt (<) (map f xs) \<Longrightarrow> filter (\<lambda>x. c \<le> f x) xs = dropWhile (\<lambda>x. f x < (c::'k::linorder)) xs"
proof (induction xs)
  case Nil
  then show ?case by simp
next
  case (Cons x xs)
  show ?case
  proof (cases "f x < c")
    case True
    with Cons show ?thesis by auto
  next
    case False
    then have "\<forall>y\<in>set xs. c \<le> f y" using Cons.prems by auto
    then have "filter (\<lambda>x. c \<le> f x) xs = xs" by simp
    with False show ?thesis by simp
  qed
qed

lemma sorted_filter_upper:
  "sorted_wrt (<) (map f xs) \<Longrightarrow> filter (\<lambda>x. f x < c) xs = takeWhile (\<lambda>x. f x < (c::'k::linorder)) xs"
proof (induction xs)
  case Nil
  then show ?case by simp
next
  case (Cons x xs)
  show ?case
  proof (cases "f x < c")
    case True
    with Cons show ?thesis by auto
  next
    case False
    then have "\<forall>y\<in>set xs. \<not> f y < c" using Cons.prems by auto
    then have "filter (\<lambda>x. f x < c) xs = []" by simp
    with False show ?thesis by simp
  qed
qed

subsection \<open>Traversal and range queries\<close>

lemma nodes_of_Nil [simp]: "(nodes_of s = []) = (s = Tip)"
  by (cases s) auto

lemma filter_items:
  "filter (\<lambda>(k, v). in_range start stop k) (map (item_at h its) xs)
     = map (item_at h its) (filter (\<lambda>a. in_range start stop (keyat h its a)) xs)"
  by (simp add: filter_map o_def case_prod_unfold keyat_def item_at_def)

lemma subtree_inorder_live:
  assumes "node_parent (h ! a) \<noteq> Some a"
  shows "subtree_inorder t h (Some (pos_of t a)) =
     Option.bind (case node_left (h ! a) of None \<Rightarrow> Some (Inr [])
                  | Some c \<Rightarrow> subtree_inorder t h (Some (pos_of t c)))
       (\<lambda>rl. case rl of
            Inl e \<Rightarrow> Some (Inl e)
          | Inr ls \<Rightarrow>
              Option.bind (case node_right (h ! a) of None \<Rightarrow> Some (Inr [])
                           | Some c \<Rightarrow> subtree_inorder t h (Some (pos_of t c)))
                (\<lambda>rr. Some (case rr of
                     Inl e \<Rightarrow> Inl e
                   | Inr rs \<Rightarrow> Inr (ls @ pos_of t a # rs))))"
  by (subst subtree_inorder.simps)
     (simp add: nav_live[OF assms] split: option.splits cong: sum.case_cong)

lemma subtree_inorder_nodes:
  "linked h par s \<Longrightarrow> distinct (nodes_of s) \<Longrightarrow> shape_root s = Some a \<Longrightarrow> par \<noteq> Some a
   \<Longrightarrow> subtree_inorder t h (Some (pos_of t a)) = Some (Inr (map (pos_of t) (nodes_of s)))"
proof (induction s arbitrary: par a)
  case Tip
  then show ?case by simp
next
  case (Br l b r)
  then have [simp]: "a = b" by simp
  have live: "node_parent (h ! b) \<noteq> Some b" using Br.prems by simp
  have L: "(case shape_root l of None \<Rightarrow> Some (Inr [])
            | Some c \<Rightarrow> subtree_inorder t h (Some (pos_of t c)))
         = Some (Inr (map (pos_of t) (nodes_of l)))"
  proof (cases l)
    case Tip
    then show ?thesis by simp
  next
    case (Br ll c lr)
    then have c: "shape_root l = Some c" by simp
    have "c \<in> set (nodes_of l)" using c by (rule shape_root_in)
    then have "Some b \<noteq> Some c" using Br.prems by auto
    then show ?thesis using Br.IH(1)[of "Some b" c] Br.prems c by simp
  qed
  have R: "(case shape_root r of None \<Rightarrow> Some (Inr [])
            | Some c \<Rightarrow> subtree_inorder t h (Some (pos_of t c)))
         = Some (Inr (map (pos_of t) (nodes_of r)))"
  proof (cases r)
    case Tip
    then show ?thesis by simp
  next
    case (Br rl c rr)
    then have c: "shape_root r = Some c" by simp
    have "c \<in> set (nodes_of r)" using c by (rule shape_root_in)
    then have "Some b \<noteq> Some c" using Br.prems by auto
    then show ?thesis using Br.IH(2)[of "Some b" c] Br.prems c by simp
  qed
  have nl: "node_left (h ! b) = shape_root l" and nr: "node_right (h ! b) = shape_root r"
    using Br.prems by simp_all
  show ?case
    by (simp add: subtree_inorder_live[OF live] nl nr L R)
qed

lemma inorder_nodes:
  assumes "tm_inv t h its s"
  shows "inorder t h = Some (Inr (map (pos_of t) (nodes_of s)))"
proof (cases s)
  case Tip
  with assms show ?thesis by (simp add: tm_inv_def inorder_def is_empty_def)
next
  case (Br l a r)
  with assms have "subtree_inorder t h (Some (pos_of t a)) = Some (Inr (map (pos_of t) (nodes_of s)))"
    using subtree_inorder_nodes[of h None s a t] by (simp add: tm_inv_def)
  with assms Br show ?thesis
    by (simp add: tm_inv_def inorder_def is_empty_def root_def)
qed

lemma find_range_start:
  assumes "tm_inv t h its s" and "s \<noteq> Tip"
  shows "(case start of
            None \<Rightarrow> first t h
          | Some s0 \<Rightarrow>
              (case find_position t h its s0 of
                 None \<Rightarrow> None
               | Some (Inl e) \<Rightarrow> Some (Inl e)
               | Some (Inr None) \<Rightarrow> Some (Inl AttributeError)
               | Some (Inr (Some q)) \<Rightarrow>
                   if key h its q < s0 then after t h (Some q) else Some (Inr (Some q))))
       = Some (Inr (map_option (pos_of t)
           (hd_opt (filter (\<lambda>a. case start of None \<Rightarrow> True | Some s0 \<Rightarrow> s0 \<le> keyat h its a)
              (nodes_of s)))))"
proof -
  from assms obtain r0 where r0: "shape_root s = Some r0" by (cases s) auto
  have lk: "linked h None s" and d: "distinct (nodes_of s)"
    and so: "sorted_wrt (<) (map (keyat h its) (nodes_of s))"
    and rt: "root t = Some (pos_of t r0)" and sz: "tree_size t > 0"
    using assms r0 by (auto simp: tm_inv_def root_def)
  show ?thesis
  proof (cases start)
    case None
    have "nodes_of s \<noteq> []" using assms(2) by (cases s) auto
    then have "hd_opt (nodes_of s) = Some (hd (nodes_of s))" by (cases "nodes_of s") auto
    then show ?thesis
      using None subtree_first_position_hd[OF lk d r0, of t] sz rt by (simp add: first_def)
  next
    case (Some s0)
    obtain b where b: "anchor (keyat h its) s0 s = Some b" "b \<in> set (nodes_of s)"
      using anchor_in[OF assms(2), of "keyat h its" s0] by auto
    have fp: "find_position t h its s0 = Some (Inr (Some (pos_of t b)))"
      using subtree_search_anchor[OF lk d r0, of t its s0] b sz rt
      by (simp add: find_position_def is_empty_def)
    have lb: "(if keyat h its b < s0 then next_in (nodes_of s) b else Some b)
        = hd_opt (dropWhile (\<lambda>a. keyat h its a < s0) (nodes_of s))"
      using anchor_lower_bound[OF so d assms(2) b(1)] .
    have "(if keyat h its b < s0 then after t h (Some (pos_of t b)) else Some (Inr (Some (pos_of t b))))
        = Some (Inr (map_option (pos_of t) (hd_opt (dropWhile (\<lambda>a. keyat h its a < s0) (nodes_of s)))))"
    proof (cases "keyat h its b < s0")
      case True
      then show ?thesis using after_next_in[OF lk d b(2), of t] lb by simp
    next
      case False
      then have "hd_opt (dropWhile (\<lambda>a. keyat h its a < s0) (nodes_of s)) = Some b"
        using lb by simp
      then show ?thesis using False by simp
    qed
    then show ?thesis
      using Some fp sorted_filter_lower[OF so, of s0] by simp
  qed
qed

lemma filter_suffix:
  "\<exists>pre. xs = pre @ filter (\<lambda>x. c \<le> f x) xs" if "sorted_wrt (<) (map f xs)"
  for c :: "'k::linorder"
proof -
  have "xs = takeWhile (\<lambda>x. f x < c) xs @ dropWhile (\<lambda>x. f x < c) xs" by simp
  then show ?thesis using sorted_filter_lower[OF that, of c] by metis
qed

lemma find_range_correct:
  assumes "tm_inv t h its s"
  shows "find_range t h its start stop
       = Some (Inr (filter (\<lambda>(k, v). in_range start stop k) (map (item_at h its) (nodes_of s))))"
proof (cases s)
  case Tip
  with assms show ?thesis by (simp add: tm_inv_def find_range_def is_empty_def)
next
  case (Br l a r)
  then have ne: "s \<noteq> Tip" by simp
  have lk: "linked h None s" and d: "distinct (nodes_of s)"
    and so: "sorted_wrt (<) (map (keyat h its) (nodes_of s))" and sz: "tree_size t \<noteq> 0"
    using assms Br by (auto simp: tm_inv_def)
  let ?lo = "\<lambda>a. case start of None \<Rightarrow> True | Some s0 \<Rightarrow> s0 \<le> keyat h its a"
  let ?hi = "\<lambda>a. case stop of None \<Rightarrow> True | Some b \<Rightarrow> keyat h its a < b"
  obtain pre where pre: "nodes_of s = pre @ filter ?lo (nodes_of s)"
  proof (cases start)
    case None
    then have "nodes_of s = [] @ filter ?lo (nodes_of s)" by simp
    then show ?thesis using that by blast
  next
    case (Some s0)
    then show ?thesis using filter_suffix[OF so, of s0] that by auto
  qed
  have loop: "range_loop t h its (map_option (pos_of t) (hd_opt (filter ?lo (nodes_of s)))) stop
      = Some (Inr (map (item_at h its) (takeWhile ?hi (filter ?lo (nodes_of s)))))"
    using range_loop_takeWhile[OF lk d pre, of t its stop] .
  have "sorted_wrt (<) (map (keyat h its) (filter ?lo (nodes_of s)))"
    using so by (simp add: sorted_wrt_map sorted_wrt_filter)
  then have "takeWhile ?hi (filter ?lo (nodes_of s)) = filter ?hi (filter ?lo (nodes_of s))"
    using sorted_filter_upper[of "keyat h its" "filter ?lo (nodes_of s)"]
    by (cases stop) simp_all
  then have "map (item_at h its) (takeWhile ?hi (filter ?lo (nodes_of s)))
      = map (item_at h its) (filter (\<lambda>a. in_range start stop (keyat h its a)) (nodes_of s))"
    by (simp add: in_range_def)
  then have "map (item_at h its) (takeWhile ?hi (filter ?lo (nodes_of s)))
      = filter (\<lambda>(k, v). in_range start stop k) (map (item_at h its) (nodes_of s))"
    by (simp only: filter_items)
  with loop find_range_start[OF assms ne, of start] sz show ?thesis
    by (simp add: find_range_def is_empty_def)
qed

section \<open>Insertion keeps the representation invariant\<close>

lemma heap_insert_length [simp]: "length (heap_insert h b on_right e) = Suc (length h)"
  by (simp add: heap_insert_def)

lemma heap_insert_other:
  "x < length h \<Longrightarrow> x \<noteq> b \<Longrightarrow> heap_insert h b on_right e ! x = h ! x"
  by (simp add: heap_insert_def nth_append)

lemma heap_insert_new: "heap_insert h b on_right e ! length h = new_node e (Some b)"
  by (simp add: heap_insert_def nth_append)

lemma heap_insert_anchor:
  "b < length h \<Longrightarrow> heap_insert h b on_right e ! b =
     (if on_right then (h ! b)\<lparr>node_right := Some (length h)\<rparr>
      else (h ! b)\<lparr>node_left := Some (length h)\<rparr>)"
  by (simp add: heap_insert_def nth_append)

lemma heap_insert_element:
  "x < length h \<Longrightarrow> node_element (heap_insert h b on_right e ! x) = node_element (h ! x)"
  by (cases "x = b") (simp_all add: heap_insert_other heap_insert_anchor)

lemma shape_insert_root: "s \<noteq> Tip \<Longrightarrow> shape_root (shape_insert f k n s) = shape_root s"
  by (cases s) auto

lemma anchor_found:
  "sorted_wrt (<) (map f (nodes_of s)) \<Longrightarrow> k \<in> f ` set (nodes_of s)
   \<Longrightarrow> \<exists>b. anchor f k s = Some b \<and> b \<in> set (nodes_of s) \<and> f b = k"
proof (induction s)
  case Tip
  then show ?case by simp
next
  case (Br l a r)
  have sl: "sorted_wrt (<) (map f (nodes_of l))" and sr: "sorted_wrt (<) (map f (nodes_of r))"
    and lt: "\<forall>x\<in>set (nodes_of l). f x < f a" and gt: "\<forall>y\<in>set (nodes_of r). f a < f y"
    using Br.prems(1) by (auto simp: sorted_wrt_append)
  consider "k = f a" | "k < f a" | "f a < k" by fastforce
  then show ?case
  proof cases
    case 1
    then show ?thesis by simp
  next
    case 2
    then have "k \<in> f ` set (nodes_of l)" using Br.prems(2) gt by fastforce
    moreover from this have "l \<noteq> Tip" by auto
    ultimately show ?thesis using Br.IH(1)[OF sl] 2 by auto
  next
    case 3
    then have "k \<in> f ` set (nodes_of r)" using Br.prems(2) lt by fastforce
    moreover from this have "r \<noteq> Tip" by auto
    ultimately show ?thesis using Br.IH(2)[OF sr] 3 by auto
  qed
qed

lemma anchor_key_absent:
  "anchor f k s = Some b \<Longrightarrow> f b = k \<Longrightarrow> k \<in> f ` set (nodes_of s)"
  by (induction s) (auto split: if_splits)

lemma anchor_slot:
  "linked h par s \<Longrightarrow> anchor (keyat h its) k s = Some b \<Longrightarrow> keyat h its b \<noteq> k
   \<Longrightarrow> (if keyat h its b < k then node_right (h ! b) = None else node_left (h ! b) = None)"
  by (induction s arbitrary: par) (auto split: if_splits)

lemma linked_insert:
  "linked h par s \<Longrightarrow> distinct (nodes_of s) \<Longrightarrow> s \<noteq> Tip
   \<Longrightarrow> anchor (keyat h its) k s = Some b \<Longrightarrow> keyat h its b \<noteq> k
   \<Longrightarrow> linked (heap_insert h b (keyat h its b < k) e) par (shape_insert (keyat h its) k (length h) s)"
proof (induction s arbitrary: par)
  case Tip
  then show ?case by simp
next
  case (Br l a r)
  let ?h = "heap_insert h b (keyat h its b < k) e"
  have al: "a < length h" using Br.prems by simp
  have inl: "\<forall>x\<in>set (nodes_of l). x < length h \<and> x \<noteq> a"
    using Br.prems linked_in_range[of h "Some a" l] by auto
  have inr: "\<forall>x\<in>set (nodes_of r). x < length h \<and> x \<noteq> a"
    using Br.prems linked_in_range[of h "Some a" r] by auto
  have ka: "k \<noteq> keyat h its a" using Br.prems by (auto split: if_splits)
  show ?case
  proof (cases "k < keyat h its a")
    case True
    have frame_r: "linked ?h (Some a) r"
    proof (rule linked_frame)
      show "linked h (Some a) r" using Br.prems by simp
      have "b \<notin> set (nodes_of r)"
      proof (cases "l = Tip")
        case True
        then have "b = a" using Br.prems \<open>k < keyat h its a\<close> ka by simp
        then show ?thesis using Br.prems by auto
      next
        case False
        then have "anchor (keyat h its) k l = Some b" using Br.prems \<open>k < keyat h its a\<close> ka by simp
        then have "b \<in> set (nodes_of l)" using anchor_in[OF False, of "keyat h its" k] by simp
        then show ?thesis using Br.prems by auto
      qed
      then have "\<forall>x\<in>set (nodes_of r). x < length h \<and> x \<noteq> b"
        using inr by auto
      then show "\<forall>x\<in>set (nodes_of r). x < length ?h \<and> ?h ! x = h ! x"
        by (simp add: heap_insert_other less_SucI)
    qed
    show ?thesis
    proof (cases "l = Tip")
      case lt: True
      then have ba: "b = a" using Br.prems True ka by simp
      have "\<not> keyat h its a < k" using True by simp
      then have "?h ! a = (h ! a)\<lparr>node_left := Some (length h)\<rparr>"
        using heap_insert_anchor[OF al, of "keyat h its b < k" e] ba by simp
      then show ?thesis
        using Br.prems True ka lt ba frame_r al
        by (simp add: heap_insert_new new_node_def)
    next
      case False
      then have an: "anchor (keyat h its) k l = Some b" using Br.prems True ka by simp
      then have bl: "b \<in> set (nodes_of l)" using anchor_in[OF False, of "keyat h its" k] by simp
      then have "b \<noteq> a" using inl by auto
      then have "?h ! a = h ! a" using al by (simp add: heap_insert_other)
      moreover have "linked ?h (Some a) (shape_insert (keyat h its) k (length h) l)"
        using Br.IH(1)[of "Some a"] Br.prems False an by simp
      ultimately show ?thesis
        using Br.prems True ka frame_r al False by (simp add: shape_insert_root)
    qed
  next
    case False
    then have gt: "keyat h its a < k" using ka by simp
    have frame_l: "linked ?h (Some a) l"
    proof (rule linked_frame)
      show "linked h (Some a) l" using Br.prems by simp
      have "b \<notin> set (nodes_of l)"
      proof (cases "r = Tip")
        case True
        then have "b = a" using Br.prems False ka by simp
        then show ?thesis using Br.prems by auto
      next
        case rne: False
        then have "anchor (keyat h its) k r = Some b" using Br.prems False ka by simp
        then have "b \<in> set (nodes_of r)" using anchor_in[OF rne, of "keyat h its" k] by simp
        then show ?thesis using Br.prems by auto
      qed
      then have "\<forall>x\<in>set (nodes_of l). x < length h \<and> x \<noteq> b"
        using inl by auto
      then show "\<forall>x\<in>set (nodes_of l). x < length ?h \<and> ?h ! x = h ! x"
        by (simp add: heap_insert_other less_SucI)
    qed
    show ?thesis
    proof (cases "r = Tip")
      case rt: True
      then have ba: "b = a" using Br.prems False ka by simp
      then have "?h ! a = (h ! a)\<lparr>node_right := Some (length h)\<rparr>"
        using heap_insert_anchor[OF al, of "keyat h its b < k" e] gt by simp
      then show ?thesis
        using Br.prems False ka rt ba frame_l al
        by (simp add: heap_insert_new new_node_def)
    next
      case rne: False
      then have an: "anchor (keyat h its) k r = Some b" using Br.prems False ka by simp
      then have bl: "b \<in> set (nodes_of r)" using anchor_in[OF rne, of "keyat h its" k] by simp
      then have "b \<noteq> a" using inr by auto
      then have "?h ! a = h ! a" using al by (simp add: heap_insert_other)
      moreover have "linked ?h (Some a) (shape_insert (keyat h its) k (length h) r)"
        using Br.IH(2)[of "Some a"] Br.prems rne an by simp
      ultimately show ?thesis
        using Br.prems False ka frame_l al rne by (simp add: shape_insert_root)
    qed
  qed
qed

lemma nodes_insert:
  "sorted_wrt (<) (map f (nodes_of s)) \<Longrightarrow> k \<notin> f ` set (nodes_of s)
   \<Longrightarrow> nodes_of (shape_insert f k n s)
       = filter (\<lambda>x. f x < k) (nodes_of s) @ n # filter (\<lambda>x. k < f x) (nodes_of s)"
proof (induction s)
  case Tip
  then show ?case by simp
next
  case (Br l a r)
  have sl: "sorted_wrt (<) (map f (nodes_of l))" and sr: "sorted_wrt (<) (map f (nodes_of r))"
    and lt: "\<forall>x\<in>set (nodes_of l). f x < f a" and gt: "\<forall>y\<in>set (nodes_of r). f a < f y"
    using Br.prems(1) by (auto simp: sorted_wrt_append)
  have ka: "k \<noteq> f a" and kl: "k \<notin> f ` set (nodes_of l)" and kr: "k \<notin> f ` set (nodes_of r)"
    using Br.prems(2) by auto
  show ?case
  proof (cases "k < f a")
    case True
    then have "\<forall>y\<in>set (nodes_of r). k < f y \<and> \<not> f y < k" using gt by fastforce
    then have "filter (\<lambda>x. f x < k) (nodes_of r) = []" "filter (\<lambda>x. k < f x) (nodes_of r) = nodes_of r"
      by (simp_all add: filter_empty_conv filter_id_conv)
    then show ?thesis using True ka Br.IH(1)[OF sl kl] by simp
  next
    case False
    then have fa: "f a < k" using ka by simp
    then have "\<forall>y\<in>set (nodes_of l). f y < k \<and> \<not> k < f y" using lt by fastforce
    then have "filter (\<lambda>x. f x < k) (nodes_of l) = nodes_of l" "filter (\<lambda>x. k < f x) (nodes_of l) = []"
      by (simp_all add: filter_empty_conv filter_id_conv)
    then show ?thesis using False fa ka Br.IH(2)[OF sr kr] by simp
  qed
qed

lemma length_nodes_insert:
  "k \<notin> f ` set (nodes_of s) \<Longrightarrow> length (nodes_of (shape_insert f k n s)) = Suc (length (nodes_of s))"
  by (induction s) auto

lemma sorted_insert:
  assumes "sorted_wrt (<) (map f (nodes_of s))" and "k \<notin> f ` set (nodes_of s)"
    and "\<forall>x\<in>set (nodes_of s). g x = f x" and "g n = k" and "n \<notin> set (nodes_of s)"
  shows "sorted_wrt (<) (map g (nodes_of (shape_insert f k n s)))"
proof -
  have eq: "map g (filter P (nodes_of s)) = map f (filter P (nodes_of s))" for P
    using assms(3) by (induction "nodes_of s" arbitrary: s) (auto intro!: map_cong)
  have s1: "sorted_wrt (<) (map f (filter (\<lambda>x. f x < k) (nodes_of s)))"
    and s2: "sorted_wrt (<) (map f (filter (\<lambda>x. k < f x) (nodes_of s)))"
    using assms(1) by (simp_all add: sorted_wrt_map sorted_wrt_filter)
  show ?thesis
    unfolding nodes_insert[OF assms(1,2)]
    using s1 s2 assms(4) by (auto simp: sorted_wrt_append eq)
qed

lemma distinct_insert:
  assumes "sorted_wrt (<) (map f (nodes_of s))" and "k \<notin> f ` set (nodes_of s)"
    and "distinct (nodes_of s)" and "n \<notin> set (nodes_of s)"
  shows "distinct (nodes_of (shape_insert f k n s))"
  unfolding nodes_insert[OF assms(1,2)] using assms(3,4) by auto

subsection \<open>The rebalancing walk finds nothing to do\<close>

lemma pos_of_ident: "tree_ident t' = tree_ident t \<Longrightarrow> pos_of t' a = pos_of t a"
  by (simp add: pos_of_def)

lemma rebalance_None: "rebalance t h None = Some (Inr (), t, h)"
  by (subst rebalance.simps) simp

lemma rebalance_live:
  assumes "node_parent (h ! a) \<noteq> Some a" and "node_balance_factor (h ! a) = 0"
  shows "rebalance t h (Some (pos_of t a)) = rebalance t h (make_position t (node_parent (h ! a)))"
  by (subst rebalance.simps) (simp add: isbalanced_def assms(2) nav_live[OF assms(1)])

lemma rebalance_up:
  "linked h par s \<Longrightarrow> distinct (nodes_of s) \<Longrightarrow> par \<notin> Some ` set (nodes_of s)
   \<Longrightarrow> x \<in> set (nodes_of s) \<Longrightarrow> \<forall>a\<in>set (nodes_of s). node_balance_factor (h ! a) = 0
   \<Longrightarrow> rebalance t h (Some (pos_of t x)) = rebalance t h (make_position t par)"
proof (induction s arbitrary: par)
  case Tip
  then show ?case by simp
next
  case (Br l b r)
  have live: "node_parent (h ! b) \<noteq> Some b" using Br.prems by auto
  have top: "rebalance t h (Some (pos_of t b)) = rebalance t h (make_position t par)"
    using rebalance_live[OF live, of t] Br.prems by simp
  from Br.prems(4) consider "x = b" | "x \<in> set (nodes_of l)" | "x \<in> set (nodes_of r)"
    by auto
  then show ?case
  proof cases
    case 1
    then show ?thesis using top by simp
  next
    case 2
    have "Some b \<notin> Some ` set (nodes_of l)" using Br.prems by auto
    then have "rebalance t h (Some (pos_of t x)) = rebalance t h (make_position t (Some b))"
      using Br.IH(1)[of "Some b"] Br.prems 2 by simp
    then show ?thesis using top by simp
  next
    case 3
    have "Some b \<notin> Some ` set (nodes_of r)" using Br.prems by auto
    then have "rebalance t h (Some (pos_of t x)) = rebalance t h (make_position t (Some b))"
      using Br.IH(2)[of "Some b"] Br.prems 3 by simp
    then show ?thesis using top by simp
  qed
qed

lemma rebalance_insert_unchanged:
  assumes "tm_inv t h its s" and "x \<in> set (nodes_of s)"
    and "tree_cls t = AVLTreeMap \<longrightarrow> all_balanced_zero h"
  shows "rebalance_insert t h (Some (pos_of t x)) = Some (Inr (), t, h)"
proof (cases "tree_cls t")
  case TreeMap
  then show ?thesis by (simp add: rebalance_insert_def)
next
  case AVLTreeMap
  have lk: "linked h None s" and d: "distinct (nodes_of s)"
    using assms(1) by (simp_all add: tm_inv_def)
  have "\<forall>a\<in>set (nodes_of s). node_balance_factor (h ! a) = 0"
    using assms(3) AVLTreeMap linked_in_range[OF lk]
    by (auto simp: all_balanced_zero_def list_all_length)
  then have "rebalance t h (Some (pos_of t x)) = rebalance t h (make_position t None)"
    using rebalance_up[OF lk d _ assms(2), of t] by auto
  then show ?thesis
    using AVLTreeMap
    by (simp add: rebalance_insert_def update_balance_factor_for_add_def rebalance_None)
qed

lemma list_all_update:
  "list_all P xs \<Longrightarrow> (b < length xs \<Longrightarrow> P y) \<Longrightarrow> list_all P (xs[b := y])"
  by (cases "b < length xs") (auto simp: list_all_length nth_list_update)

lemma all_balanced_zero_insert:
  assumes "all_balanced_zero h"
  shows "all_balanced_zero (insert_heap h its s k)"
proof -
  have upd: "list_all (\<lambda>n. node_balance_factor n = 0) (h[b := y])"
    if "node_balance_factor y = node_balance_factor (h ! b)" for b y
    using assms that unfolding all_balanced_zero_def
    by (intro list_all_update) (auto simp: list_all_length)
  show ?thesis
    unfolding all_balanced_zero_def insert_heap_def heap_insert_def
    using assms upd by (auto simp: new_node_def all_balanced_zero_def split: option.splits)
qed

lemma set_nodes_insert:
  "set (nodes_of (shape_insert f k n s)) \<subseteq> insert n (set (nodes_of s))"
  by (induction s) auto

lemma keyat_append:
  "node_element (h' ! x) = node_element (h ! x) \<Longrightarrow> node_element (h ! x) < length its
   \<Longrightarrow> keyat h' (its @ [kv]) x = keyat h its x"
  by (simp add: keyat_def nth_append)

lemma tm_inv_insert:
  assumes "tm_inv t h its s" and "items_allocated h its s"
    and "k \<notin> keyat h its ` set (nodes_of s)"
  shows "tm_inv (insert_tree t h s) (insert_heap h its s k) (its @ [(k, v)])
           (shape_insert (keyat h its) k (length h) s)"
    and "items_allocated (insert_heap h its s k) (its @ [(k, v)])
           (shape_insert (keyat h its) k (length h) s)"
proof -
  let ?h = "insert_heap h its s k" and ?its = "its @ [(k, v)]"
  let ?s = "shape_insert (keyat h its) k (length h) s"
  have lk: "linked h None s" and d: "distinct (nodes_of s)"
    and so: "sorted_wrt (<) (map (keyat h its) (nodes_of s))"
    using assms(1) by (simp_all add: tm_inv_def)
  have rng: "\<forall>x\<in>set (nodes_of s). x < length h" using linked_in_range[OF lk] by auto
  then have fresh: "length h \<notin> set (nodes_of s)" by auto
  have al: "\<forall>x\<in>set (nodes_of s). node_element (h ! x) < length its"
    using assms(2) by (simp add: items_allocated_def list_all_iff)
  have el: "\<forall>x\<in>set (nodes_of s). node_element (?h ! x) = node_element (h ! x)"
    using rng by (auto simp: insert_heap_def heap_insert_element nth_append split: option.splits)
  have new: "node_element (?h ! length h) = length its"
    by (auto simp: insert_heap_def heap_insert_new new_node_def split: option.splits)
  have keys: "\<forall>x\<in>set (nodes_of s). keyat ?h ?its x = keyat h its x"
    using el al by (simp add: keyat_append)
  have knew: "keyat ?h ?its (length h) = k"
    using new by (simp add: keyat_def)
  have 2: "distinct (nodes_of ?s)"
    using distinct_insert[OF so assms(3) d fresh] .
  have 3: "sorted_wrt (<) (map (keyat ?h ?its) (nodes_of ?s))"
    using sorted_insert[OF so assms(3) keys knew fresh] .
  have 1: "linked ?h None ?s"
  proof (cases s)
    case Tip
    then show ?thesis by (simp add: insert_heap_def new_node_def)
  next
    case (Br l a r)
    then have ne: "s \<noteq> Tip" by simp
    obtain b where b: "anchor (keyat h its) k s = Some b" "b \<in> set (nodes_of s)"
      using anchor_in[OF ne, of "keyat h its" k] by auto
    have kb: "keyat h its b \<noteq> k" using assms(3) b(2) by auto
    show ?thesis
      using linked_insert[OF lk d ne b(1) kb, of "length its"] b(1) by (simp add: insert_heap_def)
  qed
  have rt: "tree_root (insert_tree t h s) = shape_root ?s"
    using assms(1) by (cases s) (auto simp: tm_inv_def insert_tree_def)
  have sz: "tree_size (insert_tree t h s) = int (length (nodes_of ?s))"
    using assms(1) length_nodes_insert[OF assms(3), of "length h"]
    by (cases s) (auto simp: tm_inv_def insert_tree_def)
  show "tm_inv (insert_tree t h s) ?h ?its ?s"
    using 1 2 3 rt sz by (simp add: tm_inv_def)
  have "\<forall>x\<in>set (nodes_of ?s). node_element (?h ! x) < length ?its"
  proof
    fix x assume "x \<in> set (nodes_of ?s)"
    then have "x = length h \<or> x \<in> set (nodes_of s)"
      using set_nodes_insert[of "keyat h its" k "length h" s] by auto
    then show "node_element (?h ! x) < length ?its"
      using new el al by auto
  qed
  then show "items_allocated ?h ?its ?s"
    by (simp add: items_allocated_def list_all_iff)
qed

lemma setitem_insert:
  assumes "tm_inv t h its s" and "items_allocated h its s"
    and "k \<notin> keyat h its ` set (nodes_of s)"
    and "tree_cls t = AVLTreeMap \<longrightarrow> all_balanced_zero h"
  shows "setitem t h its k v
       = Some (Inr (), insert_tree t h s, insert_heap h its s k, its @ [(k, v)])"
proof -
  let ?t = "insert_tree t h s" and ?h = "insert_heap h its s k" and ?its = "its @ [(k, v)]"
  let ?s = "shape_insert (keyat h its) k (length h) s"
  have inv': "tm_inv ?t ?h ?its ?s" using tm_inv_insert(1)[OF assms(1,2,3)] .
  have id: "tree_ident ?t = tree_ident t" and cl: "tree_cls ?t = tree_cls t"
    by (simp_all add: insert_tree_def split: shape.splits)
  have bal': "tree_cls ?t = AVLTreeMap \<longrightarrow> all_balanced_zero ?h"
    using assms(4) cl all_balanced_zero_insert by auto
  have newin: "length h \<in> set (nodes_of ?s)"
    using assms(3) by (induction s) auto
  have reb: "rebalance_insert ?t ?h (Some (pos_of t (length h))) = Some (Inr (), ?t, ?h)"
    using rebalance_insert_unchanged[OF inv' newin bal'] pos_of_ident[OF id] by simp
  show ?thesis
  proof (cases s)
    case Tip
    then have "tree_root t = None" "tree_size t = 0" using assms(1) by (simp_all add: tm_inv_def)
    then show ?thesis
      using reb Tip
      by (simp add: setitem_def is_empty_def add_root_def insert_tree_def insert_heap_def
          pos_of_def)
  next
    case (Br l a r)
    then have ne: "s \<noteq> Tip" by simp
    obtain b where b: "anchor (keyat h its) k s = Some b" "b \<in> set (nodes_of s)"
      using anchor_in[OF ne, of "keyat h its" k] by auto
    have kb: "keyat h its b \<noteq> k" using assms(3) b(2) by auto
    have lk: "linked h None s" and d: "distinct (nodes_of s)"
      and rt: "root t = Some (pos_of t a)" and sz: "tree_size t \<noteq> 0"
      using assms(1) Br by (auto simp: tm_inv_def root_def)
    have live: "node_parent (h ! b) \<noteq> Some b" using linked_live[OF lk d b(2)] by simp
    have srch: "subtree_search t h its (Some (pos_of t a)) k = Some (Inr (pos_of t b))"
      using subtree_search_anchor[OF lk d, of a t its k] Br b by simp
    have slot: "if keyat h its b < k then node_right (h ! b) = None else node_left (h ! b) = None"
      using anchor_slot[OF lk b(1) kb] .
    have ih: "?h = heap_insert h b (keyat h its b < k) (length its)"
      using b by (simp add: insert_heap_def)
    have it: "?t = t\<lparr>tree_size := tree_size t + 1\<rparr>" using Br by (simp add: insert_tree_def)
    have add: "(if keyat h its b < k then add_right t h (Some (pos_of t b)) (length its)
                else add_left t h (Some (pos_of t b)) (length its))
        = (Inr (pos_of t (length h)), ?t, ?h)"
      using slot ih it
      by (auto simp: add_right_def add_left_def validate_live[OF live, unfolded pos_of_def]
          heap_insert_def pos_of_def)
    show ?thesis
      using reb add srch rt sz kb
      by (simp add: setitem_def is_empty_def)
  qed
qed

lemma keyat_overwrite:
  "keyat h (its[node_element (h ! b) := (keyat h its b, v)]) = keyat h its"
proof
  fix x
  show "keyat h (its[node_element (h ! b) := (keyat h its b, v)]) x = keyat h its x"
    by (cases "node_element (h ! x) = node_element (h ! b)";
        cases "node_element (h ! b) < length its")
       (simp_all add: keyat_def list_update_beyond)
qed

lemma tm_inv_overwrite:
  assumes "tm_inv t h its s"
  shows "tm_inv t h (its[node_element (h ! b) := (keyat h its b, v)]) s"
  using assms by (simp add: tm_inv_def keyat_overwrite)

lemma items_allocated_overwrite:
  "items_allocated h (its[e := kv]) s = items_allocated h its s"
  by (simp add: items_allocated_def)

lemma setitem_overwrite:
  assumes "tm_inv t h its s" and "b \<in> set (nodes_of s)" and "keyat h its b = k"
  shows "setitem t h its k v = Some (Inr (), t, h, its[node_element (h ! b) := (k, v)])"
proof -
  from assms(2) obtain l a r where Br: "s = Br l a r" by (cases s) auto
  then have ne: "s \<noteq> Tip" by simp
  have lk: "linked h None s" and d: "distinct (nodes_of s)"
    and so: "sorted_wrt (<) (map (keyat h its) (nodes_of s))"
    and rt: "root t = Some (pos_of t a)" and sz: "tree_size t \<noteq> 0"
    using assms(1) Br by (auto simp: tm_inv_def root_def)
  have "k \<in> keyat h its ` set (nodes_of s)" using assms(2,3) by auto
  then obtain c where c: "anchor (keyat h its) k s = Some c" "c \<in> set (nodes_of s)"
      "keyat h its c = k"
    using anchor_found[OF so] by blast
  have inj: "inj_on (keyat h its) (set (nodes_of s))"
    using so d by (metis distinct_map strict_sorted_iff sorted_wrt_map
        strict_sorted_imp_sorted sorted_wrt.simps distinct_map)
  then have "c = b" using c assms(2,3) by (auto dest: inj_onD)
  then have srch: "subtree_search t h its (Some (pos_of t a)) k = Some (Inr (pos_of t b))"
    using subtree_search_anchor[OF lk d, of a t its k] Br c by simp
  show ?thesis
    using srch rt sz assms(3) by (simp add: setitem_def is_empty_def)
qed

subsection \<open>Every run of insertions\<close>

lemma shape_insert_present:
  "sorted_wrt (<) (map f (nodes_of s)) \<Longrightarrow> k \<in> f ` set (nodes_of s) \<Longrightarrow> shape_insert f k n s = s"
proof (induction s)
  case Tip
  then show ?case by simp
next
  case (Br l a r)
  have sl: "sorted_wrt (<) (map f (nodes_of l))" and sr: "sorted_wrt (<) (map f (nodes_of r))"
    and lt: "\<forall>x\<in>set (nodes_of l). f x < f a" and gt: "\<forall>y\<in>set (nodes_of r). f a < f y"
    using Br.prems(1) by (auto simp: sorted_wrt_append)
  consider "k = f a" | "k < f a" | "f a < k" by fastforce
  then show ?case
  proof cases
    case 1
    then show ?thesis by simp
  next
    case 2
    then have "k \<in> f ` set (nodes_of l)" using Br.prems(2) gt by fastforce
    then show ?thesis using Br.IH(1)[OF sl] 2 by simp
  next
    case 3
    then have "k \<in> f ` set (nodes_of r)" using Br.prems(2) lt by fastforce
    then show ?thesis using Br.IH(2)[OF sr] 3 by auto
  qed
qed

lemma setitem_total:
  assumes "tm_inv t h its s" and "items_allocated h its s"
    and "tree_cls t = AVLTreeMap \<longrightarrow> all_balanced_zero h"
  shows "setitem t h its k v
       = Some (Inr (), setitem_tree t h its s k, setitem_heap h its s k, setitem_items h its s k v)"
    and "tm_inv (setitem_tree t h its s k) (setitem_heap h its s k) (setitem_items h its s k v)
           (shape_insert (keyat h its) k (length h) s)"
    and "items_allocated (setitem_heap h its s k) (setitem_items h its s k v)
           (shape_insert (keyat h its) k (length h) s)"
    and "all_balanced_zero h \<Longrightarrow> all_balanced_zero (setitem_heap h its s k)"
proof -
  have so: "sorted_wrt (<) (map (keyat h its) (nodes_of s))"
    using assms(1) by (simp add: tm_inv_def)
  show "setitem t h its k v
       = Some (Inr (), setitem_tree t h its s k, setitem_heap h its s k, setitem_items h its s k v)"
  proof (cases "k \<in> keyat h its ` set (nodes_of s)")
    case True
    then obtain b where b: "anchor (keyat h its) k s = Some b" "b \<in> set (nodes_of s)"
        "keyat h its b = k"
      using anchor_found[OF so] by blast
    then show ?thesis
      using True setitem_overwrite[OF assms(1) b(2,3), of v]
      by (simp add: setitem_tree_def setitem_heap_def setitem_items_def)
  next
    case False
    then show ?thesis
      using setitem_insert[OF assms(1,2) False assms(3), of v]
      by (simp add: setitem_tree_def setitem_heap_def setitem_items_def)
  qed
  show "tm_inv (setitem_tree t h its s k) (setitem_heap h its s k) (setitem_items h its s k v)
           (shape_insert (keyat h its) k (length h) s)"
  proof (cases "k \<in> keyat h its ` set (nodes_of s)")
    case True
    then obtain b where b: "anchor (keyat h its) k s = Some b" "b \<in> set (nodes_of s)"
        "keyat h its b = k"
      using anchor_found[OF so] by blast
    then show ?thesis
      using True tm_inv_overwrite[OF assms(1), of b v] shape_insert_present[OF so True]
      by (simp add: setitem_tree_def setitem_heap_def setitem_items_def)
  next
    case False
    then show ?thesis
      using tm_inv_insert(1)[OF assms(1,2) False, of v]
      by (simp add: setitem_tree_def setitem_heap_def setitem_items_def)
  qed
  show "items_allocated (setitem_heap h its s k) (setitem_items h its s k v)
           (shape_insert (keyat h its) k (length h) s)"
  proof (cases "k \<in> keyat h its ` set (nodes_of s)")
    case True
    then show ?thesis
      using assms(2) shape_insert_present[OF so True]
      by (simp add: setitem_heap_def setitem_items_def items_allocated_overwrite
          split: option.splits)
  next
    case False
    then show ?thesis
      using tm_inv_insert(2)[OF assms(1,2) False, of v]
      by (simp add: setitem_heap_def setitem_items_def)
  qed
  show "all_balanced_zero (setitem_heap h its s k)" if "all_balanced_zero h"
    using that all_balanced_zero_insert[OF that, of its s k] by (simp add: setitem_heap_def)
qed

lemma tm_inv_cls: "tm_inv (t\<lparr>tree_cls := c\<rparr>) h its s = tm_inv t h its s"
  by (simp add: tm_inv_def)

lemma setitem_tree_cls:
  "setitem_tree (t\<lparr>tree_cls := c\<rparr>) h its s k = (setitem_tree t h its s k)\<lparr>tree_cls := c\<rparr>"
  by (simp add: setitem_tree_def insert_tree_def split: shape.splits)

lemma setitems_both_classes:
  "tm_inv t h its s \<Longrightarrow> items_allocated h its s \<Longrightarrow> all_balanced_zero h
   \<Longrightarrow> \<exists>t' h' its'. setitems t h its kvs = Some (Inr (), t', h', its')
         \<and> setitems (t\<lparr>tree_cls := c\<rparr>) h its kvs = Some (Inr (), t'\<lparr>tree_cls := c\<rparr>, h', its')
         \<and> all_balanced_zero h'"
proof (induction kvs arbitrary: t h its s)
  case Nil
  then show ?case by simp
next
  case (Cons kv kvs)
  obtain k v where kv: "kv = (k, v)" by (cases kv)
  let ?t = "setitem_tree t h its s k" and ?h = "setitem_heap h its s k"
  let ?its = "setitem_items h its s k v"
  have 1: "setitem t h its k v = Some (Inr (), ?t, ?h, ?its)"
    using setitem_total(1)[OF Cons.prems(1,2)] Cons.prems(3) by simp
  have 2: "setitem (t\<lparr>tree_cls := c\<rparr>) h its k v = Some (Inr (), ?t\<lparr>tree_cls := c\<rparr>, ?h, ?its)"
    using setitem_total(1)[of "t\<lparr>tree_cls := c\<rparr>" h its s k v] Cons.prems
    by (simp add: tm_inv_cls setitem_tree_cls)
  have inv: "tm_inv ?t ?h ?its (shape_insert (keyat h its) k (length h) s)"
    using setitem_total(2)[OF Cons.prems(1,2)] Cons.prems(3) by simp
  have al: "items_allocated ?h ?its (shape_insert (keyat h its) k (length h) s)"
    using setitem_total(3)[OF Cons.prems(1,2)] Cons.prems(3) by simp
  have bal: "all_balanced_zero ?h"
    using setitem_total(4)[OF Cons.prems(1,2) _ Cons.prems(3)] Cons.prems(3) by simp
  from Cons.IH[OF inv al bal] show ?case
    using 1 2 kv by simp
qed

lemma shared_item_same_node:
  assumes "tm_inv t h its s" and "b \<in> set (nodes_of s)" and "x \<in> set (nodes_of s)"
    and "node_element (h ! x) = node_element (h ! b)"
  shows "x = b"
proof -
  have so: "sorted_wrt (<) (map (keyat h its) (nodes_of s))" and d: "distinct (nodes_of s)"
    using assms(1) by (simp_all add: tm_inv_def)
  have inj: "inj_on (keyat h its) (set (nodes_of s))"
    using so d by (metis distinct_map strict_sorted_iff sorted_wrt_map
        strict_sorted_imp_sorted sorted_wrt.simps distinct_map)
  have "keyat h its x = keyat h its b" using assms(4) by (simp add: keyat_def)
  then show ?thesis using inj assms(2,3) by (auto dest: inj_onD)
qed

section \<open>The claims\<close>

text \<open>
  C1. After every insertion into an AVL map every node's balance factor is the difference
  of the heights of its subtrees and is at most 1 in absolute value. The code does not
  keep this: after \<^verbatim>\<open>t[0]\<close>, \<^verbatim>\<open>t[1]\<close>, \<^verbatim>\<open>t[2]\<close> on an empty \<^verbatim>\<open>AVLTreeMap\<close> the root
  (node 0) stores the balance factor 0, its left subtree has height 0 and its right
  subtree has height 2.
\<close>

theorem C1_balance_factor_not_kept:
  "(case setitems (empty_tree 0 AVLTreeMap) [] [] [(0::int, ''a''), (1, ''a''), (2, ''a'')] of
      Some (Inr u, t, h, its) \<Rightarrow>
        tree_root t = Some 0 \<and> node_balance_factor (h ! 0) = 0
        \<and> avl_height h (node_left (h ! 0)) = Some 0
        \<and> avl_height h (node_right (h ! 0)) = Some 2
        \<and> avl_invariant_at h 0 = False
    | _ \<Rightarrow> False)"
  by code_simp

text \<open>
  C2. On insertion below an existing node the balance factors of the ancestors are to be
  updated by +1 or -1. The code updates none: when key 1 is added as the right child of
  the root holding key 0, \<^verbatim>\<open>update_balance_factor_for_add\<close> leaves the root's balance
  factor at 0, where the claim asks for -1.
\<close>

theorem C2_update_for_add_changes_nothing:
  "(case setitems (empty_tree 0 AVLTreeMap) [] [] [(0::int, ''a'')] of
      Some (Inr u, t, h, its) \<Rightarrow>
        (case add_right t h (root t) (length its) of
           (Inr leaf, t1, h1) \<Rightarrow>
             node_right (h1 ! 0) = Some (pos_node leaf)
             \<and> node_balance_factor (update_balance_factor_for_add t1 h1 (Some leaf) ! 0) = 0
         | _ \<Rightarrow> False)
    | _ \<Rightarrow> False)"
  by code_simp

text \<open>
  C3. \<^verbatim>\<open>_delete\<close> on a position with at most one child is to remove the node, also when
  it is the root. On the root the code raises \<^verbatim>\<open>UnboundLocalError\<close>: in the map
  holding the single key 1, \<^verbatim>\<open>_delete\<close> of the root sets \<^verbatim>\<open>_root\<close> to \<^verbatim>\<open>None\<close> and raises;
  the size stays 1 and the node is not marked as deleted.
\<close>

theorem C3_delete_of_root_raises:
  "(case setitems (empty_tree 0 TreeMap) [] [] [(1::int, ''hi'')] of
      Some (Inr u, t, h, its) \<Rightarrow>
        num_children t h (root t) = Inr 0
        \<and> delete_node t h (root t) = (Inl UnboundLocalError, t\<lparr>tree_root := None\<rparr>, h)
        \<and> tree_size t = 1 \<and> node_parent (h ! 0) = None
    | _ \<Rightarrow> False)"
  by code_simp

text \<open>
  C4. After \<^verbatim>\<open>t[0]\<close>, ..., \<^verbatim>\<open>t[4]\<close> on an empty \<^verbatim>\<open>AVLTreeMap\<close> the height is to be at most
  3. The code builds the chain 0, 1, 2, 3, 4 of right children, and \<^verbatim>\<open>height()\<close> returns 4.
\<close>

theorem C4_height_after_ascending_insertions:
  "(case setitems (empty_tree 0 AVLTreeMap) [] []
           [(0::int, ''anything''), (1, ''anything''), (2, ''anything''),
            (3, ''anything''), (4, ''anything'')] of
      Some (Inr u, t, h, its) \<Rightarrow>
        height t h None = Some (Inr 4) \<and> avl_invariant_at h 0 = False
    | _ \<Rightarrow> False)"
  by code_simp

text \<open>
  C5, as stated, fails: in scenario A \<^verbatim>\<open>find_ge(8)\<close> returns the pair of key 10, the least
  key that is at least 8, not the pair of key 12.
\<close>

theorem C5_find_ge_8_returns_10:
  "(case scenario_A of (t, h, its) \<Rightarrow>
      (case find_ge t h its 8 of
         Some (Inr (Some (k, v))) \<Rightarrow> k = 10 \<and> k \<noteq> 12
       | _ \<Rightarrow> False))"
  by code_simp

text \<open>
  C5, amended. In scenario A, \<^verbatim>\<open>before\<close> at the position of key 10 returns the position
  of key 7, \<^verbatim>\<open>after\<close> there returns the position of key 12, and \<^verbatim>\<open>find_ge(8)\<close> returns
  the pair of key 10.
\<close>

theorem C5_scenario_A:
  "(case scenario_A of (t, h, its) \<Rightarrow>
      (case find_position t h its 10 of
         Some (Inr (Some p)) \<Rightarrow>
           key h its p = 10
           \<and> (case before t h (Some p) of
                 Some (Inr (Some q)) \<Rightarrow> key h its q = 7
               | _ \<Rightarrow> False)
           \<and> (case after t h (Some p) of
                 Some (Inr (Some q)) \<Rightarrow> key h its q = 12
               | _ \<Rightarrow> False)
       | _ \<Rightarrow> False)
      \<and> find_ge t h its 8 = Some (Inr (Some (10, ''hi''))))"
  by code_simp

text \<open>
  C6. After every sequence of set and delete operations on a \<^verbatim>\<open>TreeMap\<close> the in-order
  traversal is to yield strictly ascending keys. After \<^verbatim>\<open>m[1] = 'hi'\<close> and \<^verbatim>\<open>del m[1]\<close>
  it yields nothing and raises: the deletion of the root raises \<^verbatim>\<open>UnboundLocalError\<close> in
  \<^verbatim>\<open>_delete\<close> and leaves \<^verbatim>\<open>_root\<close> at \<^verbatim>\<open>None\<close> with \<^verbatim>\<open>_size\<close> 1, and on that map
  \<^verbatim>\<open>inorder\<close> raises \<^verbatim>\<open>TypeError\<close>.
\<close>

theorem C6_delete_of_last_key_breaks_traversal:
  "(case state_of (setitems (empty_tree 0 TreeMap) [] [] [(1::int, ''hi'')]) of (t, h, its) \<Rightarrow>
      inorder t h
        = Some (Inr [\<lparr>pos_class = TreeMap_Position, pos_container = 0, pos_node = 0\<rparr>])
      \<and> (case delitem t h its 1 of
            Some (Inl e, t1, h1) \<Rightarrow>
              e = UnboundLocalError \<and> tree_root t1 = None \<and> tree_size t1 = 1
              \<and> inorder t1 h1 = Some (Inl TypeError)
          | _ \<Rightarrow> False))"
  by code_simp

text \<open>
  C7. On every \<^verbatim>\<open>TreeMap\<close> (a tree and a heap that satisfy the representation
  invariant), the in-order traversal returns the positions in strictly ascending key
  order, and \<^verbatim>\<open>find_range(start, stop)\<close> yields exactly the items of that traversal whose
  key \<open>k\<close> satisfies \<^verbatim>\<open>start <= k < stop\<close>, in that order; a bound that is \<^verbatim>\<open>None\<close> is no
  bound.
\<close>

theorem C7_find_range_yields_range:
  assumes "tm_inv t h its s"
  shows "\<exists>ps. inorder t h = Some (Inr ps)
     \<and> sorted_wrt (<) (map (key h its) ps)
     \<and> find_range t h its start stop
         = Some (Inr (filter (\<lambda>(k, v). in_range start stop k)
                   (map (\<lambda>p. (key h its p, val h its p)) ps)))"
proof -
  have so: "sorted_wrt (<) (map (keyat h its) (nodes_of s))"
    using assms by (simp add: tm_inv_def)
  have "map (\<lambda>p. (key h its p, val h its p)) (map (pos_of t) (nodes_of s))
      = map (item_at h its) (nodes_of s)"
    by (simp add: item_at_def keyat_def)
  moreover have "map (key h its) (map (pos_of t) (nodes_of s)) = map (keyat h its) (nodes_of s)"
    by simp
  ultimately show ?thesis
    using inorder_nodes[OF assms] find_range_correct[OF assms, of start stop] so
    by (intro exI[of _ "map (pos_of t) (nodes_of s)"]) (simp only: simp_thms)
qed

text \<open>
  Scenario E: over the keys 2, 5, 7, 10, 12, 18, \<^verbatim>\<open>find_range(5, 15)\<close> yields the pairs of
  the keys 5, 7, 10, 12 in that order.
\<close>

theorem C7_find_range_yields_range_witness:
  "(case scenario_E of (t, h, its) \<Rightarrow>
      map_option (map_sum id (map (key h its))) (inorder t h)
        = Some (Inr [2, 5, 7, 10, 12, 18])
      \<and> find_range t h its (Some 5) (Some 15)
          = Some (Inr [(5, ''hi''), (7, ''hi''), (10, ''hi''), (12, ''hi'')]))"
proof -
  obtain t h its where s: "scenario_E = (t, h, its)" by (cases scenario_E)
  have "(case scenario_E of (t, h, its) \<Rightarrow> tm_inv t h its shape_E)" by code_simp
  then have inv: "tm_inv t h its shape_E" unfolding s by simp
  from C7_find_range_yields_range[OF inv, of "Some 5" "Some 15"] obtain ps where
    io: "inorder t h = Some (Inr ps)" and
    fr: "find_range t h its (Some 5) (Some 15)
         = Some (Inr (filter (\<lambda>(k, v). in_range (Some 5) (Some 15) k)
                   (map (\<lambda>p. (key h its p, val h its p)) ps)))"
    by blast
  have "(case scenario_E of (t, h, its) \<Rightarrow>
      map_option (map_sum id (map (\<lambda>p. (key h its p, val h its p)))) (inorder t h)
        = Some (Inr [(2, ''hi''), (5, ''hi''), (7, ''hi''), (10, ''hi''), (12, ''hi''), (18, ''hi'')]))"
    by code_simp
  then have items: "map (\<lambda>p. (key h its p, val h its p)) ps
      = [(2, ''hi''), (5, ''hi''), (7, ''hi''), (10, ''hi''), (12, ''hi''), (18, ''hi'')]"
    unfolding s using io by simp
  have keys: "map (key h its) ps = map fst (map (\<lambda>p. (key h its p, val h its p)) ps)"
    by (simp add: o_def)
  show ?thesis
    unfolding s using fr io by (simp add: keys items in_range_def)
qed

text \<open>
  C8. On a \<^verbatim>\<open>TreeMap\<close> that holds the key \<open>k\<close> at the node \<open>b\<close>, \<^verbatim>\<open>__setitem__(k, v)\<close>
  returns normally; the tree object (root and size) and the whole heap (every node and
  every link) are as before, no item is made, and the item store changes at the item of
  \<open>b\<close> only, which becomes \<open>(k, v)\<close>. So \<open>b\<close> now reads \<open>(k, v)\<close> and every other node of
  the tree reads the item it read before.
\<close>

theorem C8_setitem_existing_key:
  assumes "tm_inv t h its s" and "items_allocated h its s"
    and "b \<in> set (nodes_of s)" and "keyat h its b = k"
  shows "setitem t h its k v = Some (Inr (), t, h, its[node_element (h ! b) := (k, v)])
     \<and> tm_inv t h (its[node_element (h ! b) := (k, v)]) s
     \<and> items_allocated h (its[node_element (h ! b) := (k, v)]) s
     \<and> item_at h (its[node_element (h ! b) := (k, v)]) b = (k, v)
     \<and> list_all (\<lambda>x. x = b \<or> item_at h (its[node_element (h ! b) := (k, v)]) x = item_at h its x)
          (nodes_of s)"
proof -
  let ?its = "its[node_element (h ! b) := (k, v)]"
  have inv': "tm_inv t h ?its s"
    using tm_inv_overwrite[OF assms(1), of b v] assms(4) by simp
  have al: "node_element (h ! b) < length its"
    using assms(2,3) by (simp add: items_allocated_def list_all_iff)
  have new: "item_at h ?its b = (k, v)"
    using al by (simp add: item_at_def)
  have frame: "item_at h ?its x = item_at h its x" if "x \<in> set (nodes_of s)" "x \<noteq> b" for x
  proof -
    have "node_element (h ! x) \<noteq> node_element (h ! b)"
      using shared_item_same_node[OF assms(1,3) that(1)] that(2) by auto
    then show ?thesis by (simp add: item_at_def)
  qed
  show ?thesis
    using setitem_overwrite[OF assms(1,3,4), of v] inv' new frame assms(2)
    by (auto simp: items_allocated_overwrite list_all_iff)
qed

text \<open>
  In scenario A after \<^verbatim>\<open>del bst[5]\<close>, setting the key 2 (now held by node 1) to a new
  value changes item 3, which node 1 and the removed node 3 share; node 4 reads what it
  read before.
\<close>

theorem C8_setitem_existing_key_witness:
  "(case scenario_A_without_5 of (t, h, its) \<Rightarrow>
      node_element (h ! 1) = 3 \<and> node_element (h ! 3) = 3 \<and> node_parent (h ! 3) = Some 3
      \<and> setitem t h its 2 ''new'' = Some (Inr (), t, h, its[3 := (2, ''new'')])
      \<and> item_at h (its[3 := (2, ''new'')]) 1 = (2, ''new'')
      \<and> item_at h (its[3 := (2, ''new'')]) 3 = (2, ''new'')
      \<and> item_at h (its[3 := (2, ''new'')]) 4 = (7, ''hi''))"
proof -
  obtain t h its where s: "scenario_A_without_5 = (t, h, its)" by (cases scenario_A_without_5)
  have "(case scenario_A_without_5 of (t, h, its) \<Rightarrow>
      tm_inv t h its shape_A_without_5 \<and> items_allocated h its shape_A_without_5
      \<and> keyat h its 1 = 2 \<and> node_element (h ! 1) = 3 \<and> node_element (h ! 3) = 3
      \<and> node_parent (h ! 3) = Some 3 \<and> item_at h its 4 = (7, ''hi''))"
    by code_simp
  then have inv: "tm_inv t h its shape_A_without_5"
    and al: "items_allocated h its shape_A_without_5"
    and k: "keyat h its 1 = 2" and e: "node_element (h ! 1) = 3" "node_element (h ! 3) = 3"
    and dead: "node_parent (h ! 3) = Some 3" and four: "item_at h its 4 = (7, ''hi'')"
    unfolding s by simp_all
  have n: "1 \<in> set (nodes_of shape_A_without_5)" by (simp add: shape_A_without_5_def)
  have "item_at h (its[3 := (2, ''new'')]) 3 = item_at h (its[3 := (2, ''new'')]) 1"
    using e by (simp add: item_at_def)
  then show ?thesis
    unfolding s
    using C8_setitem_existing_key[OF inv al n k, of "''new''"] e dead four
    by (simp add: shape_A_without_5_def)
qed

text \<open>
  C9, as stated, fails for \<^verbatim>\<open>is_root\<close>, which compares its argument with the root and
  never calls \<^verbatim>\<open>_validate\<close>: in scenario D the root position of \<open>tB\<close>, which
  \<^verbatim>\<open>_validate\<close> of \<open>tA\<close> refuses, makes \<^verbatim>\<open>tA.is_root\<close> return \<^verbatim>\<open>False\<close>. The
  nonpublic \<^verbatim>\<open>_subtree_search\<close> of \<open>tA\<close>, given that position and its key, returns it
  as well.
\<close>

theorem C9_is_root_does_not_validate:
  "(case scenario_D of (tA, tB, h, its) \<Rightarrow>
      validate tA h (root tB) = Inl ValueError \<and> is_root tA (root tB) = False
      \<and> subtree_search tA h its (root tB) 2
          = Some (Inr \<lparr>pos_class = TreeMap_Position, pos_container = 1, pos_node = 1\<rparr>))"
  by code_simp

text \<open>
  C9, amended. Given a Position of another container or of a deleted node, each of
  \<^verbatim>\<open>parent\<close>, \<^verbatim>\<open>left\<close>, \<^verbatim>\<open>right\<close>, \<^verbatim>\<open>sibling\<close>, \<^verbatim>\<open>children\<close> (the generator, once it is
  consumed), \<^verbatim>\<open>num_children\<close>, \<^verbatim>\<open>is_leaf\<close>, \<^verbatim>\<open>height\<close>, \<^verbatim>\<open>before\<close>, \<^verbatim>\<open>after\<close>,
  \<^verbatim>\<open>_add_left\<close>, \<^verbatim>\<open>_add_right\<close>, \<^verbatim>\<open>_replace\<close>, \<^verbatim>\<open>_delete\<close>, \<^verbatim>\<open>_attach\<close> and \<^verbatim>\<open>delete\<close>
  raises the exception of \<^verbatim>\<open>_validate\<close>, which is \<^verbatim>\<open>ValueError\<close>, or \<^verbatim>\<open>TypeError\<close> when
  the Position is not a \<^verbatim>\<open>TreeMap.Position\<close>; the mutators among them leave the tree
  objects and the heap as they were. \<^verbatim>\<open>is_root\<close> does not validate and does not raise: it
  returns whether its argument is a \<^verbatim>\<open>TreeMap.Position\<close> of the node that is the root,
  whatever its container.
\<close>

theorem C9_invalid_position_rejected:
  assumes "invalid_position t h q"
  shows "parent t h (Some q) = Inl (validate_error q)
     \<and> left t h (Some q) = Inl (validate_error q)
     \<and> right t h (Some q) = Inl (validate_error q)
     \<and> sibling t h (Some q) = Inl (validate_error q)
     \<and> children t h (Some q) = Inl (validate_error q)
     \<and> num_children t h (Some q) = Inl (validate_error q)
     \<and> is_leaf t h (Some q) = Inl (validate_error q)
     \<and> height t h (Some q) = Some (Inl (validate_error q))
     \<and> before t h (Some q) = Some (Inl (validate_error q))
     \<and> after t h (Some q) = Some (Inl (validate_error q))
     \<and> add_left t h (Some q) e = (Inl (validate_error q), t, h)
     \<and> add_right t h (Some q) e = (Inl (validate_error q), t, h)
     \<and> replace t h (Some q) e = (Inl (validate_error q), t, h)
     \<and> delete_node t h (Some q) = (Inl (validate_error q), t, h)
     \<and> attach t t1 t2 h (Some q) = (Inl (validate_error q), (t, t1, t2), h)
     \<and> delete t h (Some q) = Some (Inl (validate_error q), t, h)
     \<and> (validate_error q = ValueError \<or> validate_error q = TypeError)
     \<and> (pos_class q = TreeMap_Position \<longrightarrow> validate_error q = ValueError)
     \<and> is_root t (Some q) = (pos_class q = TreeMap_Position \<and> tree_root t = Some (pos_node q))"
proof -
  have v: "validate t h (Some q) = Inl (validate_error q)"
    using assms by (auto simp: invalid_position_def validate_def validate_error_def)
  have nav: "parent t h (Some q) = Inl (validate_error q)"
    "left t h (Some q) = Inl (validate_error q)"
    "right t h (Some q) = Inl (validate_error q)"
    "num_children t h (Some q) = Inl (validate_error q)"
    by (simp_all add: parent_def left_def right_def num_children_def v)
  have leaf: "is_leaf t h (Some q) = Inl (validate_error q)"
    by (simp add: is_leaf_def nav)
  have hgt: "height t h (Some q) = Some (Inl (validate_error q))"
    unfolding height_def by (subst height2.simps) (simp add: leaf)
  have err: "validate_error q = ValueError \<or> validate_error q = TypeError"
    "pos_class q = TreeMap_Position \<longrightarrow> validate_error q = ValueError"
    by (simp_all add: validate_error_def)
  have isr: "is_root t (Some q) = (pos_class q = TreeMap_Position \<and> tree_root t = Some (pos_node q))"
    by (cases "tree_root t") (auto simp: is_root_def root_def make_position_def pos_eq_def)
  show ?thesis
    using err isr
    by (simp add: nav leaf hgt v sibling_def children_def before_def after_def add_left_def
        add_right_def replace_def delete_node_def attach_def delete_def)
qed

text \<open>
  In scenario D, \<^verbatim>\<open>tA.delete\<close> of the root position of \<open>tB\<close> raises \<^verbatim>\<open>ValueError\<close> and
  changes nothing, and \<^verbatim>\<open>tA.parent\<close> of a \<^verbatim>\<open>LinkedBinaryTree.Position\<close> raises
  \<^verbatim>\<open>TypeError\<close>.
\<close>

theorem C9_invalid_position_rejected_witness:
  "(case scenario_D of (tA, tB, h, its) \<Rightarrow>
      delete tA h (root tB) = Some (Inl ValueError, tA, h)
      \<and> parent tA h (root tB) = Inl ValueError
      \<and> parent tA h (Some \<lparr>pos_class = LinkedBinaryTree_Position, pos_container = 2,
            pos_node = 0\<rparr>) = Inl TypeError)"
proof -
  obtain tA tB h its where s: "scenario_D = (tA, tB, h, its)" by (cases scenario_D)
  let ?p = "\<lparr>pos_class = LinkedBinaryTree_Position, pos_container = 2, pos_node = 0\<rparr>"
  have "(case scenario_D of (tA, tB, h, its) \<Rightarrow>
      root tB \<noteq> None \<and> invalid_position tA h (the (root tB))
      \<and> validate_error (the (root tB)) = ValueError \<and> invalid_position tA h ?p)"
    by code_simp
  then have "root tB \<noteq> None \<and> invalid_position tA h (the (root tB))
      \<and> validate_error (the (root tB)) = ValueError \<and> invalid_position tA h ?p"
    unfolding s by simp
  then obtain q where q: "root tB = Some q" "invalid_position tA h q"
    "validate_error q = ValueError" and p: "invalid_position tA h ?p"
    by auto
  have "validate_error ?p = TypeError" by (simp add: validate_error_def)
  then show ?thesis
    unfolding s
    using C9_invalid_position_rejected[OF q(2)] C9_invalid_position_rejected[OF p] q(1,3)
    by simp
qed

text \<open>
  C10. For every sequence of insertions into an empty map, an \<^verbatim>\<open>AVLTreeMap\<close> and a
  \<^verbatim>\<open>TreeMap\<close> both complete and leave the same heap (the same nodes and links), the same
  items and the same root and size, and every node stores the balance factor 0: the
  rebalancing walk of the \<^verbatim>\<open>AVLTreeMap\<close> never finds an unbalanced node.
\<close>

theorem C10_avl_run_equals_treemap_run:
  "\<exists>t h its. setitems (empty_tree i TreeMap) [] [] kvs = Some (Inr (), t, h, its)
     \<and> setitems (empty_tree i AVLTreeMap) [] [] kvs
         = Some (Inr (), t\<lparr>tree_cls := AVLTreeMap\<rparr>, h, its)
     \<and> all_balanced_zero h"
proof -
  have inv: "tm_inv (empty_tree i TreeMap) [] ([] :: ('a, 'b) items) Tip"
    by (simp add: tm_inv_def empty_tree_def)
  have al: "items_allocated [] ([] :: ('a, 'b) items) Tip"
    by (simp add: items_allocated_def)
  have bal: "all_balanced_zero []" by (simp add: all_balanced_zero_def)
  have "(empty_tree i TreeMap)\<lparr>tree_cls := AVLTreeMap\<rparr> = empty_tree i AVLTreeMap"
    by (simp add: empty_tree_def)
  then show ?thesis
    using setitems_both_classes[OF inv al bal, of kvs AVLTreeMap] by simp
qed

text \<open>The insertions of 0, 1, 2 in ascending order.\<close>

theorem C10_avl_run_equals_treemap_run_witness:
  "(case setitems (empty_tree 0 TreeMap) [] [] [(0::int, ''a''), (1, ''a''), (2, ''a'')] of
      Some (Inr u, t, h, its) \<Rightarrow>
        setitems (empty_tree 0 AVLTreeMap) [] [] [(0::int, ''a''), (1, ''a''), (2, ''a'')]
          = Some (Inr (), t\<lparr>tree_cls := AVLTreeMap\<rparr>, h, its)
        \<and> all_balanced_zero h
    | _ \<Rightarrow> False)"
  using C10_avl_run_equals_treemap_run[of 0 "[(0::int, ''a''), (1, ''a''), (2, ''a'')]"]
  by auto

end
